theory Spec2Isabelle
  imports Main "HOL-Library.Word"
begin

unbundle bit_operations_syntax

section \<open>Keys and values\<close>

text \<open>
  The skiplist of \<^verbatim>\<open>table/memtable\<close> stores versioned keys and value structs of
  package \<^verbatim>\<open>y\<close>. Machine integers are words of their width; list lengths, levels
  and heights are natural numbers (the source keeps them between 0 and 21).
\<close>

type_synonym u8 = "8 word"
type_synonym u16 = "16 word"
type_synonym u32 = "32 word"
type_synonym u64 = "64 word"

record Key =
  UserKey :: "u8 list"
  Version :: u64

record ValueStruct =
  Meta :: u8
  UserMeta :: u8
  ExpiresAt :: u64
  Value :: "u8 list"
  Version :: u64

text \<open>The zero values \<^verbatim>\<open>y.Key{}\<close> and \<^verbatim>\<open>y.ValueStruct{}\<close>.\<close>

definition emptyKey :: Key where
  "emptyKey = \<lparr>UserKey = [], Version = 0\<rparr>"

definition emptyValue :: ValueStruct where
  "emptyValue = \<lparr>Meta = 0, UserMeta = 0, ExpiresAt = 0, Value = [], Version = 0\<rparr>"

text \<open>\<^verbatim>\<open>bytes.Compare\<close> of the Go library: lexicographic order on byte strings.\<close>

fun bytesCompare :: "u8 list \<Rightarrow> u8 list \<Rightarrow> int" where
  "bytesCompare [] [] = 0"
| "bytesCompare [] (y # ys) = -1"
| "bytesCompare (x # xs) [] = 1"
| "bytesCompare (x # xs) (y # ys) =
     (if x < y then -1 else if y < x then 1 else bytesCompare xs ys)"

text \<open>
  Modelled from the spec: \<^verbatim>\<open>Key.Compare\<close> of package \<^verbatim>\<open>y\<close>, which is not among the
  sources. The order is lexicographic on the user key ascending and, among equal user
  keys, by Version descending (newer versions sort first).
\<close>

definition Compare :: "Key \<Rightarrow> Key \<Rightarrow> int" where
  "Compare k k2 =
     (let cmp = bytesCompare (UserKey k) (UserKey k2) in
      if cmp \<noteq> 0 then cmp
      else if Key.Version k > Key.Version k2 then -1
      else if Key.Version k < Key.Version k2 then 1
      else 0)"

text \<open>
  Modelled from the spec: \<^verbatim>\<open>Key.SameUserKey\<close> of package \<^verbatim>\<open>y\<close> compares the user
  keys and ignores the Version.
\<close>

definition SameUserKey :: "Key \<Rightarrow> Key \<Rightarrow> bool" where
  "SameUserKey k k2 = (UserKey k = UserKey k2)"

text \<open>
  Modelled from the spec: \<^verbatim>\<open>ValueStruct.EncodedSize\<close> of package \<^verbatim>\<open>y\<close>, the number of
  bytes the value takes in the arena: the header (meta byte, user-meta byte, expiration
  timestamp) and the payload.
\<close>

definition encodedLen :: "ValueStruct \<Rightarrow> nat" where
  "encodedLen v = length (Value v) + 10"

definition EncodedSize :: "ValueStruct \<Rightarrow> u32" where
  "EncodedSize v = of_nat (encodedLen v)"

section \<open>Nodes and the arena\<close>

datatype error = NilPointer | IndexOutOfRange | BadOffset | OutOfArena | AssertFailed

definition maxHeight :: nat where
  "maxHeight = 20"

definition heightIncrease :: u32 where
  "heightIncrease = 4294967295 div 3"

text \<open>
  A node as the source declares it. The tower of a node of height \<open>h\<close> is allocated
  truncated to \<open>h\<close> slots, so \<open>tower\<close> is a list of that length. The fields \<open>value\<close>
  and \<open>height\<close> of the source are \<open>nvalue\<close> and \<open>nheight\<close> here.
\<close>

record node =
  nvalue :: u64
  keyOffset :: u32
  keySize :: u16
  nheight :: u16
  tower :: "u32 list"

definition MaxNodeSize :: nat where
  "MaxNodeSize = 96"

text \<open>
  Modelled from the spec: the arena of \<^verbatim>\<open>arena.go\<close>, which is not among the sources.
  It is a bump allocator over a buffer of \<open>buflen\<close> bytes whose cursor starts past the
  null offset 0; it yields 32-bit offsets and fails with \<open>OutOfArena\<close> when a bump would
  exceed the budget (or the 32-bit offset range). What was copied to an offset is kept in
  one table for each kind of object: \<open>nodes\<close>, \<open>keys\<close> and \<open>vals\<close>. A pointer to a node
  is the node's offset, and \<open>nil\<close> is offset 0.
\<close>

record arena =
  cursor :: nat
  buflen :: nat
  nodes :: "u32 \<Rightarrow> node option"
  keys :: "u32 \<Rightarrow> Key option"
  vals :: "u32 \<Rightarrow> ValueStruct option"

definition nodeAlign :: nat where
  "nodeAlign = 7"

definition offsetSize :: nat where
  "offsetSize = 4"

definition newArena :: "nat \<Rightarrow> arena" where
  "newArena n = \<lparr>cursor = 1, buflen = n, nodes = (\<lambda>_. None), keys = (\<lambda>_. None),
     vals = (\<lambda>_. None)\<rparr>"

definition bump :: "arena \<Rightarrow> nat \<Rightarrow> error + (nat \<times> arena)" where
  "bump a l =
     (let n = cursor a + l in
      if n > buflen a \<or> n \<ge> 2 ^ 32 then Inl OutOfArena
      else Inr (n, a\<lparr>cursor := n\<rparr>))"

definition zeroNode :: "nat \<Rightarrow> node" where
  "zeroNode h = \<lparr>nvalue = 0, keyOffset = 0, keySize = 0, nheight = 0, tower = replicate h 0\<rparr>"

definition putNode :: "arena \<Rightarrow> nat \<Rightarrow> error + (u32 \<times> arena)" where
  "putNode a h =
     (let unusedSize = (maxHeight - h) * offsetSize;
          l = MaxNodeSize - unusedSize + nodeAlign in
      case bump a l of
        Inl e \<Rightarrow> Inl e
      | Inr (n, a') \<Rightarrow>
          let m = ((n - l + nodeAlign) div (nodeAlign + 1)) * (nodeAlign + 1) in
          Inr (of_nat m, a'\<lparr>nodes := (nodes a')(of_nat m \<mapsto> zeroNode h)\<rparr>))"

definition putKey :: "arena \<Rightarrow> Key \<Rightarrow> error + (u32 \<times> arena)" where
  "putKey a key =
     (let l = length (UserKey key) + 8 in
      case bump a l of
        Inl e \<Rightarrow> Inl e
      | Inr (n, a') \<Rightarrow>
          let m = n - l in
          Inr (of_nat m, a'\<lparr>keys := (keys a')(of_nat m \<mapsto> key)\<rparr>))"

definition putVal :: "arena \<Rightarrow> ValueStruct \<Rightarrow> error + (u32 \<times> arena)" where
  "putVal a v =
     (let l = encodedLen v in
      case bump a l of
        Inl e \<Rightarrow> Inl e
      | Inr (n, a') \<Rightarrow>
          let m = n - l in
          Inr (of_nat m, a'\<lparr>vals := (vals a')(of_nat m \<mapsto> v)\<rparr>))"

definition getNode :: "arena \<Rightarrow> u32 \<Rightarrow> u32" where
  "getNode a offset = offset"

definition getNodeOffset :: "arena \<Rightarrow> u32 \<Rightarrow> u32" where
  "getNodeOffset a nd = nd"

definition getKey :: "arena \<Rightarrow> u32 \<Rightarrow> u16 \<Rightarrow> error + Key" where
  "getKey a offset sz = (case keys a offset of None \<Rightarrow> Inl BadOffset | Some k \<Rightarrow> Inr k)"

definition getVal :: "arena \<Rightarrow> u32 \<Rightarrow> u32 \<Rightarrow> error + ValueStruct" where
  "getVal a offset sz = (case vals a offset of None \<Rightarrow> Inl BadOffset | Some v \<Rightarrow> Inr v)"

text \<open>
  Modelled from the spec: \<^verbatim>\<open>arena.reset\<close> of \<^verbatim>\<open>arena.go\<close>, which is not among the sources.
  It drops all contents by rewinding the cursor of the arena it is called on to its initial
  position, so it needs an arena to write to.
\<close>

definition reset :: "arena \<Rightarrow> arena" where
  "reset a = newArena (buflen a)"

text \<open>Reading the node a pointer refers to; \<open>nil\<close> and offsets that hold no node fail.\<close>

definition deref :: "arena \<Rightarrow> u32 \<Rightarrow> error + node" where
  "deref a p =
     (if p = 0 then Inl NilPointer
      else case nodes a p of None \<Rightarrow> Inl BadOffset | Some nd \<Rightarrow> Inr nd)"

definition encodeValue :: "u32 \<Rightarrow> u32 \<Rightarrow> u64" where
  "encodeValue valOffset valSize = push_bit 32 (ucast valSize) OR ucast valOffset"

definition decodeValue :: "u64 \<Rightarrow> u32 \<times> u32" where
  "decodeValue v = (ucast v, ucast (drop_bit 32 v))"

definition newNode :: "arena \<Rightarrow> Key \<Rightarrow> ValueStruct \<Rightarrow> nat \<Rightarrow> error + (u32 \<times> arena)" where
  "newNode a key v h =
     (case putNode a h of
        Inl e \<Rightarrow> Inl e
      | Inr (offset, a1) \<Rightarrow>
          (case putKey a1 key of
             Inl e \<Rightarrow> Inl e
           | Inr (ko, a2) \<Rightarrow>
               (case putVal a2 v of
                  Inl e \<Rightarrow> Inl e
                | Inr (vo, a3) \<Rightarrow>
                    (case deref a3 (getNode a3 offset) of
                       Inl e \<Rightarrow> Inl e
                     | Inr nd \<Rightarrow>
                         Inr (getNode a3 offset,
                              a3\<lparr>nodes := (nodes a3)(getNode a3 offset \<mapsto>
                                   nd\<lparr>keyOffset := ko,
                                      keySize := of_nat (length (UserKey key) + 8),
                                      nheight := of_nat h,
                                      nvalue := encodeValue vo (EncodedSize v)\<rparr>)\<rparr>)))))"

definition getValueOffset :: "arena \<Rightarrow> u32 \<Rightarrow> error + (u32 \<times> u32)" where
  "getValueOffset a n =
     (case deref a n of Inl e \<Rightarrow> Inl e | Inr nd \<Rightarrow> Inr (decodeValue (nvalue nd)))"

text \<open>The method \<^verbatim>\<open>key\<close> of a node.\<close>

definition node_key :: "arena \<Rightarrow> u32 \<Rightarrow> error + Key" where
  "node_key a n =
     (case deref a n of Inl e \<Rightarrow> Inl e | Inr nd \<Rightarrow> getKey a (keyOffset nd) (keySize nd))"

definition setValue :: "arena \<Rightarrow> u32 \<Rightarrow> ValueStruct \<Rightarrow> error + arena" where
  "setValue a n v =
     (case putVal a v of
        Inl e \<Rightarrow> Inl e
      | Inr (valOffset, a1) \<Rightarrow>
          (case deref a1 n of
             Inl e \<Rightarrow> Inl e
           | Inr nd \<Rightarrow>
               Inr (a1\<lparr>nodes := (nodes a1)(n \<mapsto>
                      nd\<lparr>nvalue := encodeValue valOffset (EncodedSize v)\<rparr>)\<rparr>)))"

definition getNextOffset :: "arena \<Rightarrow> u32 \<Rightarrow> nat \<Rightarrow> error + u32" where
  "getNextOffset a n h =
     (case deref a n of
        Inl e \<Rightarrow> Inl e
      | Inr nd \<Rightarrow> if h < length (tower nd) then Inr (tower nd ! h) else Inl IndexOutOfRange)"

definition casNextOffset :: "arena \<Rightarrow> u32 \<Rightarrow> nat \<Rightarrow> u32 \<Rightarrow> u32 \<Rightarrow> error + (bool \<times> arena)" where
  "casNextOffset a n h old val =
     (case deref a n of
        Inl e \<Rightarrow> Inl e
      | Inr nd \<Rightarrow>
          if h < length (tower nd) then
            (if tower nd ! h = old
             then Inr (True, a\<lparr>nodes := (nodes a)(n \<mapsto> nd\<lparr>tower := (tower nd)[h := val]\<rparr>)\<rparr>)
             else Inr (False, a))
          else Inl IndexOutOfRange)"

section \<open>The skiplist\<close>

text \<open>
  The skiplist struct. \<open>arena\<close> is \<open>None\<close> and \<open>head\<close> is \<open>nil\<close> once \<open>Delete\<close> has run.
\<close>

record skiplist =
  height :: nat
  head :: u32
  arena :: "arena option"

definition withArena :: "skiplist \<Rightarrow> (arena \<Rightarrow> error + 'a) \<Rightarrow> error + 'a" where
  "withArena s f = (case arena s of None \<Rightarrow> Inl NilPointer | Some a \<Rightarrow> f a)"

definition Delete :: "skiplist \<Rightarrow> error + skiplist" where
  "Delete s =
     (case withArena s (\<lambda>a. Inr (reset a)) of
        Inl e \<Rightarrow> Inl e
      | Inr a \<Rightarrow> Inr (s\<lparr>arena := None, head := 0\<rparr>))"

definition valid :: "skiplist \<Rightarrow> bool" where
  "valid s = (arena s \<noteq> None)"

definition newSkiplist :: "nat \<Rightarrow> error + skiplist" where
  "newSkiplist arenaSize =
     (case newNode (newArena arenaSize) emptyKey emptyValue maxHeight of
        Inl e \<Rightarrow> Inl e
      | Inr (x, a) \<Rightarrow> Inr \<lparr>height = 1, head = x, arena = Some a\<rparr>)"

text \<open>
  \<open>randomHeight\<close> draws from \<^verbatim>\<open>rtutil.FastRand\<close>; \<open>rnd i\<close> is the value of the \<open>i\<close>-th
  draw of the call. The loop makes a draw only while \<open>h < maxHeight\<close>.
\<close>

function randomHeight_loop :: "(nat \<Rightarrow> u32) \<Rightarrow> nat \<Rightarrow> nat" where
  "randomHeight_loop rnd h =
     (if h < maxHeight \<and> rnd (h - 1) \<le> heightIncrease
      then randomHeight_loop rnd (h + 1) else h)"
  by pat_completeness auto
termination
  by (relation "measure (\<lambda>(rnd, h). maxHeight - h)") auto

declare randomHeight_loop.simps [simp del]

definition randomHeight :: "(nat \<Rightarrow> u32) \<Rightarrow> nat" where
  "randomHeight rnd = randomHeight_loop rnd 1"

definition getNext :: "skiplist \<Rightarrow> u32 \<Rightarrow> nat \<Rightarrow> error + u32" where
  "getNext s nd h =
     withArena s (\<lambda>a. case getNextOffset a nd h of
                         Inl e \<Rightarrow> Inl e
                       | Inr offset \<Rightarrow> Inr (getNode a offset))"

definition getHeight :: "skiplist \<Rightarrow> nat" where
  "getHeight s = height s"

text \<open>
  The loop of \<open>findNear\<close>: \<open>x\<close>, \<open>level\<close> and \<open>afterNode\<close> are its variables. The loop
  may not end on an arena whose towers form a cycle, so not returning is \<open>None\<close>.
\<close>

partial_function (option) findNear_loop ::
  "skiplist \<Rightarrow> Key \<Rightarrow> bool \<Rightarrow> bool \<Rightarrow> u32 \<Rightarrow> nat \<Rightarrow> u32 \<Rightarrow> (error + (u32 \<times> bool)) option" where
  "findNear_loop s key less' allowEqual x level afterNode =
     (case getNext s x level of
        Inl e \<Rightarrow> Some (Inl e)
      | Inr nxt \<Rightarrow>
          if nxt = 0 then
            (if level > 0 then findNear_loop s key less' allowEqual x (level - 1) afterNode
             else if \<not> less' then Some (Inr (0, False))
             else if x = head s then Some (Inr (0, False))
             else Some (Inr (x, False)))
          else
            (case (if nxt = afterNode then Inr (- 1)
                   else (case withArena s (\<lambda>a. node_key a nxt) of
                           Inl e \<Rightarrow> Inl e
                         | Inr nextKey \<Rightarrow> Inr (Compare key nextKey))) of
               Inl e \<Rightarrow> Some (Inl e)
             | Inr cmp \<Rightarrow>
                 if cmp > 0 then findNear_loop s key less' allowEqual nxt level afterNode
                 else if cmp = 0 then
                   (if allowEqual then Some (Inr (nxt, True))
                    else if \<not> less' then
                      (case getNext s nxt 0 of
                         Inl e \<Rightarrow> Some (Inl e)
                       | Inr r \<Rightarrow> Some (Inr (r, False)))
                    else if level > 0 then
                      findNear_loop s key less' allowEqual x (level - 1) afterNode
                    else if x = head s then Some (Inr (0, False))
                    else Some (Inr (x, False)))
                 else
                   (if level > 0 then findNear_loop s key less' allowEqual x (level - 1) nxt
                    else if \<not> less' then Some (Inr (nxt, False))
                    else if x = head s then Some (Inr (0, False))
                    else Some (Inr (x, False)))))"

declare findNear_loop.simps [code]

definition findNear :: "skiplist \<Rightarrow> Key \<Rightarrow> bool \<Rightarrow> bool \<Rightarrow> (error + (u32 \<times> bool)) option" where
  "findNear s key less' allowEqual =
     (if getHeight s = 0 then Some (Inl IndexOutOfRange)
      else findNear_loop s key less' allowEqual (head s) (getHeight s - 1) 0)"

partial_function (option) findSpliceForLevel ::
  "skiplist \<Rightarrow> Key \<Rightarrow> u32 \<Rightarrow> nat \<Rightarrow> (error + (u32 \<times> u32 \<times> bool)) option" where
  "findSpliceForLevel s key bef level =
     (case getNext s bef level of
        Inl e \<Rightarrow> Some (Inl e)
      | Inr nxt \<Rightarrow>
          if nxt = 0 then Some (Inr (bef, nxt, False))
          else
            (case withArena s (\<lambda>a. node_key a nxt) of
               Inl e \<Rightarrow> Some (Inl e)
             | Inr nextKey \<Rightarrow>
                 let cmp = Compare key nextKey in
                 if cmp \<le> 0 then Some (Inr (bef, nxt, cmp = 0))
                 else findSpliceForLevel s key nxt level))"

declare findSpliceForLevel.simps [code]

section \<open>Hints and insertion\<close>

text \<open>
  The hint struct. Its arrays \<open>prev\<close> and \<open>next\<close> have \<open>maxHeight + 1\<close> slots: they are
  functions on indices, and every index expression is checked against the bound as Go
  checks it. The fields \<open>height\<close>, \<open>prev\<close> and \<open>next\<close> of the source are \<open>hheight\<close>,
  \<open>hprev\<close> and \<open>hnext\<close> here.
\<close>

record hint =
  hheight :: nat
  hitHeight :: nat
  hprev :: "nat \<Rightarrow> u32"
  hnext :: "nat \<Rightarrow> u32"

definition newHint :: hint where
  "newHint = \<lparr>hheight = 0, hitHeight = 0, hprev = (\<lambda>_. 0), hnext = (\<lambda>_. 0)\<rparr>"

definition inBounds :: "nat \<Rightarrow> bool" where
  "inBounds i = (i < maxHeight + 1)"

text \<open>The loops \<^verbatim>\<open>for prevNode == h.prev[recomputeHeight] { recomputeHeight++ }\<close>.\<close>

function skipSame :: "(nat \<Rightarrow> u32) \<Rightarrow> u32 \<Rightarrow> nat \<Rightarrow> error + nat" where
  "skipSame arr p r =
     (if inBounds r then (if p = arr r then skipSame arr p (r + 1) else Inr r)
      else Inl IndexOutOfRange)"
  by pat_completeness auto
termination
  by (relation "measure (\<lambda>(arr, p, r). maxHeight + 1 - r)") (auto simp: inBounds_def)

declare skipSame.simps [simp del]

function recomputeLoop :: "skiplist \<Rightarrow> Key \<Rightarrow> hint \<Rightarrow> nat \<Rightarrow> nat \<Rightarrow> error + nat" where
  "recomputeLoop s key h listHeight recomputeHeight =
     (if recomputeHeight < listHeight then
        (if \<not> inBounds recomputeHeight then Inl IndexOutOfRange
         else
           let prevNode = hprev h recomputeHeight;
               nextNode = hnext h recomputeHeight in
           case getNext s prevNode recomputeHeight of
             Inl e \<Rightarrow> Inl e
           | Inr prevNext \<Rightarrow>
               if prevNext \<noteq> nextNode then
                 recomputeLoop s key h listHeight (recomputeHeight + 1)
               else
                 (case (if prevNode \<noteq> head s \<and> prevNode \<noteq> 0
                        then (case withArena s (\<lambda>a. node_key a prevNode) of
                                Inl e \<Rightarrow> Inl e
                              | Inr k \<Rightarrow> Inr (Compare key k \<le> 0))
                        else Inr False) of
                    Inl e \<Rightarrow> Inl e
                  | Inr beforeSplice \<Rightarrow>
                      if beforeSplice then
                        (case skipSame (hprev h) prevNode recomputeHeight of
                           Inl e \<Rightarrow> Inl e
                         | Inr r \<Rightarrow> recomputeLoop s key h listHeight r)
                      else
                        (case (if nextNode \<noteq> 0
                               then (case withArena s (\<lambda>a. node_key a nextNode) of
                                       Inl e \<Rightarrow> Inl e
                                     | Inr k \<Rightarrow> Inr (Compare key k > 0))
                               else Inr False) of
                           Inl e \<Rightarrow> Inl e
                         | Inr afterSplice \<Rightarrow>
                             if afterSplice then
                               (case skipSame (hnext h) nextNode recomputeHeight of
                                  Inl e \<Rightarrow> Inl e
                                | Inr r \<Rightarrow> recomputeLoop s key h listHeight r)
                             else Inr recomputeHeight)))
      else Inr recomputeHeight)"
  by pat_completeness auto
termination
proof -
  have le: "r \<le> r'" if "skipSame arr p r = Inr r'" for arr p r r'
    using that
  proof (induction arr p r rule: skipSame.induct)
    case (1 arr p r)
    from "1.prems" have b: "inBounds r"
      by (subst (asm) skipSame.simps) (simp split: if_splits)
    show ?case
    proof (cases "p = arr r")
      case True
      with "1.prems" b have "skipSame arr p (r + 1) = Inr r'"
        by (subst (asm) skipSame.simps) simp
      with "1.IH" b True show ?thesis by fastforce
    next
      case False
      with "1.prems" b show ?thesis
        by (subst (asm) skipSame.simps) simp
    qed
  qed
  have gt: "r < r'" if a: "skipSame arr (arr r) r = Inr r'" for arr r r'
  proof -
    from a have "inBounds r"
      by (subst (asm) skipSame.simps) (simp split: if_splits)
    with a have "skipSame arr (arr r) (r + 1) = Inr r'"
      by (subst (asm) skipSame.simps) simp
    then show ?thesis using le by fastforce
  qed
  show ?thesis
    by (relation "measure (\<lambda>(s, key, h, listHeight, r). listHeight - r)")
       (auto dest: gt)
qed

declare recomputeLoop.simps [simp del]

definition calculateRecomputeHeight ::
  "skiplist \<Rightarrow> Key \<Rightarrow> hint \<Rightarrow> nat \<Rightarrow> error + (nat \<times> hint)" where
  "calculateRecomputeHeight s key h listHeight =
     (if hheight h < listHeight then
        (if \<not> inBounds listHeight then Inl IndexOutOfRange
         else Inr (listHeight,
                   h\<lparr>hprev := (hprev h)(listHeight := head s),
                     hnext := (hnext h)(listHeight := 0),
                     hheight := listHeight,
                     hitHeight := listHeight\<rparr>))
      else
        (case recomputeLoop s key h listHeight (hitHeight h - 2) of
           Inl e \<Rightarrow> Inl e
         | Inr recomputeHeight \<Rightarrow> Inr (recomputeHeight, h\<lparr>hitHeight := recomputeHeight\<rparr>)))"

definition casHeight :: "skiplist \<Rightarrow> nat \<Rightarrow> nat \<Rightarrow> bool \<times> skiplist" where
  "casHeight s old new =
     (if height s = old then (True, s\<lparr>height := new\<rparr>) else (False, s))"

text \<open>The loop of \<open>PutWithHint\<close> that raises the height of the list by CAS.\<close>

function raiseHeight :: "skiplist \<Rightarrow> nat \<Rightarrow> nat \<Rightarrow> skiplist \<times> nat" where
  "raiseHeight s listHeight h =
     (if h > listHeight then
        (case casHeight s listHeight h of
           (True, s') \<Rightarrow> (s', h)
         | (False, s') \<Rightarrow> raiseHeight s' (getHeight s') h)
      else (s, listHeight))"
  by pat_completeness auto
termination
  by (relation "measure (\<lambda>(s, listHeight, h). if height s = listHeight then 0 else 1)")
     (auto simp: casHeight_def getHeight_def split: if_splits)

declare raiseHeight.simps [simp del]

text \<open>
  The loop \<^verbatim>\<open>for i > 0 { h.prev[i-1] = h.prev[i]; h.next[i-1] = h.next[i]; i-- }\<close> of the
  in-place update.
\<close>

fun copyDown :: "hint \<Rightarrow> nat \<Rightarrow> hint" where
  "copyDown h 0 = h"
| "copyDown h (Suc j) =
     copyDown (h\<lparr>hprev := (hprev h)(j := hprev h (Suc j)),
                 hnext := (hnext h)(j := hnext h (Suc j))\<rparr>) j"

datatype splice_result = InPlace skiplist hint | NoMatch hint

text \<open>
  The loop \<^verbatim>\<open>for i := recomputeHeight - 1; i >= 0; i--\<close> of \<open>PutWithHint\<close>; its last
  argument is \<open>i + 1\<close>. On a match the value is set in place and the put returns.
\<close>

fun spliceLoop ::
  "skiplist \<Rightarrow> Key \<Rightarrow> ValueStruct \<Rightarrow> hint \<Rightarrow> nat \<Rightarrow> (error + splice_result) option" where
  "spliceLoop s key v h 0 = Some (Inr (NoMatch h))"
| "spliceLoop s key v h (Suc i) =
     (if \<not> inBounds (i + 1) then Some (Inl IndexOutOfRange)
      else
        case findSpliceForLevel s key (hprev h (i + 1)) i of
          None \<Rightarrow> None
        | Some (Inl e) \<Rightarrow> Some (Inl e)
        | Some (Inr (p, n, match)) \<Rightarrow>
            let h1 = h\<lparr>hprev := (hprev h)(i := p), hnext := (hnext h)(i := n)\<rparr> in
            if match then
              (case withArena s (\<lambda>a. setValue a (hnext h1 i) v) of
                 Inl e \<Rightarrow> Some (Inl e)
               | Inr a' \<Rightarrow> Some (Inr (InPlace (s\<lparr>arena := Some a'\<rparr>) (copyDown h1 i))))
            else spliceLoop s key v h1 i)"

text \<open>
  The inner loop of the insertion at level \<open>i\<close>: \<open>storeAndCas\<close> stores the
  successor in the tower of \<open>x\<close> and then CASes the predecessor's slot; when the CAS
  fails, \<open>linkLevel\<close> recomputes the splice of the level and tries again.
\<close>

definition storeAndCas :: "arena \<Rightarrow> u32 \<Rightarrow> nat \<Rightarrow> hint \<Rightarrow> error + (bool \<times> arena)" where
  "storeAndCas a x i h =
     (let nextOffset = getNodeOffset a (hnext h i) in
      case deref a x of
        Inl e \<Rightarrow> Inl e
      | Inr nd \<Rightarrow>
          if \<not> i < length (tower nd) then Inl IndexOutOfRange
          else
            let a1 = a\<lparr>nodes := (nodes a)(x \<mapsto> nd\<lparr>tower := (tower nd)[i := nextOffset]\<rparr>)\<rparr>
            in casNextOffset a1 (hprev h i) i nextOffset (getNodeOffset a1 x))"

partial_function (option) linkLevel ::
  "skiplist \<Rightarrow> Key \<Rightarrow> u32 \<Rightarrow> nat \<Rightarrow> hint \<Rightarrow> bool \<Rightarrow> (error + (skiplist \<times> hint \<times> bool)) option" where
  "linkLevel s key x i h spliceIsValid =
     (if \<not> inBounds i then Some (Inl IndexOutOfRange)
      else
        case withArena s (\<lambda>a. storeAndCas a x i h) of
          Inl e \<Rightarrow> Some (Inl e)
        | Inr (swapped, a') \<Rightarrow>
            if swapped then Some (Inr (s\<lparr>arena := Some a'\<rparr>, h, spliceIsValid))
            else
              (case findSpliceForLevel (s\<lparr>arena := Some a'\<rparr>) key (hprev h i) i of
                 None \<Rightarrow> None
               | Some (Inl e) \<Rightarrow> Some (Inl e)
               | Some (Inr (p, n, match)) \<Rightarrow>
                   linkLevel (s\<lparr>arena := Some a'\<rparr>) key x i
                     (h\<lparr>hprev := (hprev h)(i := p), hnext := (hnext h)(i := n)\<rparr>)
                     (if i > 0 then False else spliceIsValid)))"

declare linkLevel.simps [code]

text \<open>The loop \<^verbatim>\<open>for i := 0; i < height; i++\<close> around it.\<close>

function linkLoop ::
  "skiplist \<Rightarrow> Key \<Rightarrow> u32 \<Rightarrow> nat \<Rightarrow> nat \<Rightarrow> hint \<Rightarrow> bool \<Rightarrow> (error + (skiplist \<times> hint \<times> bool)) option" where
  "linkLoop s key x ht i h spliceIsValid =
     (if i < ht then
        (case linkLevel s key x i h spliceIsValid of
           None \<Rightarrow> None
         | Some (Inl e) \<Rightarrow> Some (Inl e)
         | Some (Inr (s', h', valid')) \<Rightarrow> linkLoop s' key x ht (i + 1) h' valid')
      else Some (Inr (s, h, spliceIsValid)))"
  by pat_completeness auto
termination
  by (relation "measure (\<lambda>(s, key, x, ht, i, h, v). ht - i)") auto

declare linkLoop.simps [simp del]

text \<open>
  The loop that refreshes a valid hint after the insertion:
  \<^verbatim>\<open>h.prev[i] = x; h.next[i] = s.getNext(x, i)\<close> for \<open>i < height\<close>.
\<close>

function refreshHint :: "skiplist \<Rightarrow> u32 \<Rightarrow> nat \<Rightarrow> nat \<Rightarrow> hint \<Rightarrow> error + hint" where
  "refreshHint s x ht i h =
     (if i < ht then
        (if \<not> inBounds i then Inl IndexOutOfRange
         else case getNext s x i of
                Inl e \<Rightarrow> Inl e
              | Inr n \<Rightarrow>
                  refreshHint s x ht (i + 1)
                    (h\<lparr>hprev := (hprev h)(i := x), hnext := (hnext h)(i := n)\<rparr>))
      else Inr h)"
  by pat_completeness auto
termination
  by (relation "measure (\<lambda>(s, x, ht, i, h). ht - i)") auto

declare refreshHint.simps [simp del]

text \<open>
  \<open>PutWithHint\<close>. The hint is \<open>None\<close> for \<open>nil\<close>; the result holds the list and the
  hint object as the call leaves them. \<open>rnd\<close> are the draws of \<open>randomHeight\<close>.
\<close>

definition PutWithHint ::
  "skiplist \<Rightarrow> Key \<Rightarrow> ValueStruct \<Rightarrow> hint option \<Rightarrow> (nat \<Rightarrow> u32) \<Rightarrow> (error + (skiplist \<times> hint)) option" where
  "PutWithHint s key v hopt rnd =
     (let listHeight0 = getHeight s;
          ht = randomHeight rnd;
          (s1, listHeight) = raiseHeight s listHeight0 ht;
          spliceIsValid = (hopt \<noteq> None);
          h0 = (case hopt of None \<Rightarrow> newHint | Some h \<Rightarrow> h)
      in
      case calculateRecomputeHeight s1 key h0 listHeight of
        Inl e \<Rightarrow> Some (Inl e)
      | Inr (recomputeHeight, h1) \<Rightarrow>
          (case (if recomputeHeight > 0 then spliceLoop s1 key v h1 recomputeHeight
                 else Some (Inr (NoMatch h1))) of
             None \<Rightarrow> None
           | Some (Inl e) \<Rightarrow> Some (Inl e)
           | Some (Inr (InPlace s2 h2)) \<Rightarrow> Some (Inr (s2, h2))
           | Some (Inr (NoMatch h2)) \<Rightarrow>
               (case withArena s1 (\<lambda>a. newNode a key v ht) of
                  Inl e \<Rightarrow> Some (Inl e)
                | Inr (x, a') \<Rightarrow>
                    (case linkLoop (s1\<lparr>arena := Some a'\<rparr>) key x ht 0 h2 spliceIsValid of
                       None \<Rightarrow> None
                     | Some (Inl e) \<Rightarrow> Some (Inl e)
                     | Some (Inr (s3, h3, stillValid)) \<Rightarrow>
                         if stillValid then
                           (case refreshHint s3 x ht 0 h3 of
                              Inl e \<Rightarrow> Some (Inl e)
                            | Inr h4 \<Rightarrow> Some (Inr (s3, h4)))
                         else Some (Inr (s3, h3\<lparr>hheight := 0\<rparr>))))))"

text \<open>\<open>Put\<close> passes a \<open>nil\<close> hint.\<close>

definition Put :: "skiplist \<Rightarrow> Key \<Rightarrow> ValueStruct \<Rightarrow> (nat \<Rightarrow> u32) \<Rightarrow> (error + skiplist) option" where
  "Put s key v rnd =
     (case PutWithHint s key v None rnd of
        None \<Rightarrow> None
      | Some (Inl e) \<Rightarrow> Some (Inl e)
      | Some (Inr (s', h)) \<Rightarrow> Some (Inr s'))"

section \<open>Lookups and iterators\<close>

text \<open>
  Reading the value of a node as \<open>Get\<close> and \<open>GetWithHint\<close> do: the value struct at
  the node's value word, with the Version of the node's key.
\<close>

definition valueOf :: "arena \<Rightarrow> u32 \<Rightarrow> Key \<Rightarrow> error + ValueStruct" where
  "valueOf a n nextKey =
     (case getValueOffset a n of
        Inl e \<Rightarrow> Inl e
      | Inr (valOffset, valSize) \<Rightarrow>
          (case getVal a valOffset valSize of
             Inl e \<Rightarrow> Inl e
           | Inr vs \<Rightarrow> Inr (vs\<lparr>ValueStruct.Version := Key.Version nextKey\<rparr>)))"

definition lookupNode :: "skiplist \<Rightarrow> Key \<Rightarrow> u32 \<Rightarrow> error + ValueStruct" where
  "lookupNode s key n =
     (if n = 0 then Inr emptyValue
      else
        withArena s (\<lambda>a.
          case deref a n of
            Inl e \<Rightarrow> Inl e
          | Inr nd \<Rightarrow>
              (case getKey a (keyOffset nd) (keySize nd) of
                 Inl e \<Rightarrow> Inl e
               | Inr nextKey \<Rightarrow>
                   if \<not> SameUserKey key nextKey then Inr emptyValue
                   else valueOf a n nextKey)))"

text \<open>
  The loop \<^verbatim>\<open>for j := i; j >= 0; j--\<close> of \<open>GetWithHint\<close>; its last argument is
  \<open>j + 1\<close>.
\<close>

fun pointHint :: "skiplist \<Rightarrow> u32 \<Rightarrow> hint \<Rightarrow> nat \<Rightarrow> error + hint" where
  "pointHint s n h 0 = Inr h"
| "pointHint s n h (Suc j) =
     (if \<not> inBounds j then Inl IndexOutOfRange
      else case getNext s n j of
             Inl e \<Rightarrow> Inl e
           | Inr nx \<Rightarrow> pointHint s n (h\<lparr>hprev := (hprev h)(j := n), hnext := (hnext h)(j := nx)\<rparr>) j)"

text \<open>
  The loop \<^verbatim>\<open>for i := recomputeHeight - 1; i >= 0; i--\<close> of \<open>GetWithHint\<close>; its last
  argument is \<open>i + 1\<close>. It returns the node \<open>n\<close> and the hint.
\<close>

fun getLoop :: "skiplist \<Rightarrow> Key \<Rightarrow> hint \<Rightarrow> nat \<Rightarrow> (error + (u32 \<times> hint)) option" where
  "getLoop s key h 0 = Some (Inr (0, h))"
| "getLoop s key h (Suc i) =
     (if \<not> inBounds (i + 1) then Some (Inl IndexOutOfRange)
      else
        case findSpliceForLevel s key (hprev h (i + 1)) i of
          None \<Rightarrow> None
        | Some (Inl e) \<Rightarrow> Some (Inl e)
        | Some (Inr (p, nx, match)) \<Rightarrow>
            let h1 = h\<lparr>hprev := (hprev h)(i := p), hnext := (hnext h)(i := nx)\<rparr> in
            if match then
              (case pointHint s (hnext h1 i) h1 (Suc i) of
                 Inl e \<Rightarrow> Some (Inl e)
               | Inr h2 \<Rightarrow> Some (Inr (hnext h1 i, h2)))
            else getLoop s key h1 i)"

definition GetWithHint ::
  "skiplist \<Rightarrow> Key \<Rightarrow> hint option \<Rightarrow> (error + (ValueStruct \<times> hint)) option" where
  "GetWithHint s key hopt =
     (let h0 = (case hopt of None \<Rightarrow> newHint | Some h \<Rightarrow> h);
          listHeight = getHeight s
      in
      case calculateRecomputeHeight s key h0 listHeight of
        Inl e \<Rightarrow> Some (Inl e)
      | Inr (recomputeHeight, h1) \<Rightarrow>
          (case (if recomputeHeight > 0 then getLoop s key h1 recomputeHeight
                 else Some (Inr (hnext h1 0, h1))) of
             None \<Rightarrow> None
           | Some (Inl e) \<Rightarrow> Some (Inl e)
           | Some (Inr (n, h2)) \<Rightarrow>
               (case lookupNode s key n of
                  Inl e \<Rightarrow> Some (Inl e)
                | Inr vs \<Rightarrow> Some (Inr (vs, h2)))))"

partial_function (option) findLast_loop :: "skiplist \<Rightarrow> u32 \<Rightarrow> nat \<Rightarrow> (error + u32) option" where
  "findLast_loop s n level =
     (case getNext s n level of
        Inl e \<Rightarrow> Some (Inl e)
      | Inr nxt \<Rightarrow>
          if nxt \<noteq> 0 then findLast_loop s nxt level
          else if level = 0 then (if n = head s then Some (Inr 0) else Some (Inr n))
          else findLast_loop s n (level - 1))"

declare findLast_loop.simps [code]

definition findLast :: "skiplist \<Rightarrow> (error + u32) option" where
  "findLast s =
     (if getHeight s = 0 then Some (Inl IndexOutOfRange)
      else findLast_loop s (head s) (getHeight s - 1))"

definition Empty :: "skiplist \<Rightarrow> (error + bool) option" where
  "Empty s =
     (case findLast s of
        None \<Rightarrow> None
      | Some (Inl e) \<Rightarrow> Some (Inl e)
      | Some (Inr n) \<Rightarrow> Some (Inr (n = 0)))"

definition Get :: "skiplist \<Rightarrow> Key \<Rightarrow> (error + ValueStruct) option" where
  "Get s key =
     (case findNear s key False True of
        None \<Rightarrow> None
      | Some (Inl e) \<Rightarrow> Some (Inl e)
      | Some (Inr (n, eq)) \<Rightarrow> Some (lookupNode s key n))"

text \<open>
  The iterator struct: the list it walks and the current node. The fields \<open>list\<close> and
  \<open>n\<close> of the source are \<open>it_list\<close> and \<open>it_n\<close> here.
\<close>

record Iterator =
  it_list :: skiplist
  it_n :: u32

definition NewIterator :: "skiplist \<Rightarrow> Iterator" where
  "NewIterator s = \<lparr>it_list = s, it_n = 0\<rparr>"

definition Valid :: "Iterator \<Rightarrow> bool" where
  "Valid it = (it_n it \<noteq> 0)"

definition iterKey :: "Iterator \<Rightarrow> error + Key" where
  "iterKey it =
     withArena (it_list it) (\<lambda>a.
       case deref a (it_n it) of
         Inl e \<Rightarrow> Inl e
       | Inr nd \<Rightarrow> getKey a (keyOffset nd) (keySize nd))"

definition iterValue :: "Iterator \<Rightarrow> error + ValueStruct" where
  "iterValue it =
     withArena (it_list it) (\<lambda>a.
       case getValueOffset a (it_n it) of
         Inl e \<Rightarrow> Inl e
       | Inr (valOffset, valSize) \<Rightarrow> getVal a valOffset valSize)"

definition Next :: "Iterator \<Rightarrow> error + Iterator" where
  "Next it =
     (if \<not> Valid it then Inl AssertFailed
      else case getNext (it_list it) (it_n it) 0 of
             Inl e \<Rightarrow> Inl e
           | Inr n \<Rightarrow> Inr (it\<lparr>it_n := n\<rparr>))"

definition Prev :: "Iterator \<Rightarrow> (error + Iterator) option" where
  "Prev it =
     (if \<not> Valid it then Some (Inl AssertFailed)
      else case iterKey it of
             Inl e \<Rightarrow> Some (Inl e)
           | Inr k \<Rightarrow>
               (case findNear (it_list it) k True False of
                  None \<Rightarrow> None
                | Some (Inl e) \<Rightarrow> Some (Inl e)
                | Some (Inr (n, eq)) \<Rightarrow> Some (Inr (it\<lparr>it_n := n\<rparr>))))"

definition Seek :: "Iterator \<Rightarrow> Key \<Rightarrow> (error + Iterator) option" where
  "Seek it target =
     (case findNear (it_list it) target False True of
        None \<Rightarrow> None
      | Some (Inl e) \<Rightarrow> Some (Inl e)
      | Some (Inr (n, eq)) \<Rightarrow> Some (Inr (it\<lparr>it_n := n\<rparr>)))"

definition SeekForPrev :: "Iterator \<Rightarrow> Key \<Rightarrow> (error + Iterator) option" where
  "SeekForPrev it target =
     (case findNear (it_list it) target True True of
        None \<Rightarrow> None
      | Some (Inl e) \<Rightarrow> Some (Inl e)
      | Some (Inr (n, eq)) \<Rightarrow> Some (Inr (it\<lparr>it_n := n\<rparr>)))"

definition SeekToFirst :: "Iterator \<Rightarrow> error + Iterator" where
  "SeekToFirst it =
     (case getNext (it_list it) (head (it_list it)) 0 of
        Inl e \<Rightarrow> Inl e
      | Inr n \<Rightarrow> Inr (it\<lparr>it_n := n\<rparr>))"

definition SeekToLast :: "Iterator \<Rightarrow> (error + Iterator) option" where
  "SeekToLast it =
     (case findLast (it_list it) of
        None \<Rightarrow> None
      | Some (Inl e) \<Rightarrow> Some (Inl e)
      | Some (Inr n) \<Rightarrow> Some (Inr (it\<lparr>it_n := n\<rparr>)))"

text \<open>
  Forward iteration as the flush of the memtable drives it:
  \<^verbatim>\<open>for it.Rewind(); it.Valid(); it.Next() { ... it.Key(), it.Value() ... }\<close>.
  The entries visited are collected in order; the iterator it ends with is returned too.
\<close>

partial_function (option) forward_loop ::
  "Iterator \<Rightarrow> (Key \<times> ValueStruct) list \<Rightarrow> (error + ((Key \<times> ValueStruct) list \<times> Iterator)) option" where
  "forward_loop it acc =
     (if \<not> Valid it then Some (Inr (acc, it))
      else
        case iterKey it of
          Inl e \<Rightarrow> Some (Inl e)
        | Inr k \<Rightarrow>
            (case iterValue it of
               Inl e \<Rightarrow> Some (Inl e)
             | Inr v \<Rightarrow>
                 (case Next it of
                    Inl e \<Rightarrow> Some (Inl e)
                  | Inr it' \<Rightarrow> forward_loop it' (acc @ [(k, v)]))))"

declare forward_loop.simps [code]

definition forward :: "skiplist \<Rightarrow> (error + ((Key \<times> ValueStruct) list \<times> Iterator)) option" where
  "forward s =
     (case SeekToFirst (NewIterator s) of
        Inl e \<Rightarrow> Some (Inl e)
      | Inr it \<Rightarrow> forward_loop it [])"

section \<open>Sequences of puts\<close>

text \<open>A list of \<open>Put\<close> calls, each with its key, its value and the draws of its call.\<close>

fun putAll :: "skiplist \<Rightarrow> (Key \<times> ValueStruct \<times> (nat \<Rightarrow> u32)) list \<Rightarrow> (error + skiplist) option" where
  "putAll s [] = Some (Inr s)"
| "putAll s ((k, v, rnd) # ops) =
     (case Put s k v rnd of
        None \<Rightarrow> None
      | Some (Inl e) \<Rightarrow> Some (Inl e)
      | Some (Inr s') \<Rightarrow> putAll s' ops)"

text \<open>
  The lists reachable from a list by calls of \<open>PutWithHint\<close>, with any key, value,
  hint and draws.
\<close>

inductive reaches :: "skiplist \<Rightarrow> skiplist \<Rightarrow> bool" where
  reaches_refl: "reaches s s"
| reaches_put: "reaches s s1 \<Longrightarrow> PutWithHint s1 k v hopt rnd = Some (Inr (s2, h)) \<Longrightarrow> reaches s s2"

section \<open>The structure of a well-formed skiplist\<close>

text \<open>
  \<open>chain a l p xs\<close>: following the tower slots of level \<open>l\<close> from node \<open>p\<close> visits
  exactly the nodes \<open>xs\<close> and then reaches \<open>nil\<close>.
\<close>

fun chain :: "arena \<Rightarrow> nat \<Rightarrow> u32 \<Rightarrow> u32 list \<Rightarrow> bool" where
  "chain a l p [] = (getNextOffset a p l = Inr 0)"
| "chain a l p (q # qs) = (q \<noteq> 0 \<and> getNextOffset a p l = Inr q \<and> chain a l q qs)"

text \<open>The key and the value a node holds (the zero values where it holds none).\<close>

definition kof :: "arena \<Rightarrow> u32 \<Rightarrow> Key" where
  "kof a p = (case node_key a p of Inl e \<Rightarrow> emptyKey | Inr k \<Rightarrow> k)"

definition readValue :: "arena \<Rightarrow> u32 \<Rightarrow> error + ValueStruct" where
  "readValue a p =
     (case getValueOffset a p of
        Inl e \<Rightarrow> Inl e
      | Inr (valOffset, valSize) \<Rightarrow> getVal a valOffset valSize)"

definition vof :: "arena \<Rightarrow> u32 \<Rightarrow> ValueStruct" where
  "vof a p = (case readValue a p of Inl e \<Rightarrow> emptyValue | Inr v \<Rightarrow> v)"

definition stored :: "arena \<Rightarrow> u32 \<Rightarrow> bool" where
  "stored a p =
     (case node_key a p of
        Inl e \<Rightarrow> False
      | Inr k \<Rightarrow> (case readValue a p of Inl e \<Rightarrow> False | Inr v \<Rightarrow> True))"

definition keyLess :: "Key \<Rightarrow> Key \<Rightarrow> bool" where
  "keyLess k k2 = (Compare k k2 < 0)"

definition ascending :: "arena \<Rightarrow> u32 list \<Rightarrow> bool" where
  "ascending a xs = sorted_wrt (\<lambda>p q. keyLess (kof a p) (kof a q)) xs"

definition level_ok :: "skiplist \<Rightarrow> arena \<Rightarrow> nat \<Rightarrow> u32 list \<Rightarrow> bool" where
  "level_ok s a l xs =
     (chain a l (head s) xs \<and> ascending a xs \<and> head s \<notin> set xs \<and> (\<forall>p\<in>set xs. stored a p))"

definition arena_ok :: "arena \<Rightarrow> bool" where
  "arena_ok a =
     (1 \<le> cursor a
      \<and> (\<forall>p. nodes a p \<noteq> None \<longrightarrow> unat p < cursor a)
      \<and> (\<forall>p. keys a p \<noteq> None \<longrightarrow> unat p < cursor a)
      \<and> (\<forall>p. vals a p \<noteq> None \<longrightarrow> unat p < cursor a))"

text \<open>
  The invariant of a live skiplist; \<open>Ls l\<close> lists the nodes of level \<open>l\<close> in order.
  Every level is a chain from the head that is strictly ascending by \<open>Compare\<close>, a node
  of a level is on every level below it, and the height is between 1 and \<open>maxHeight\<close>.
\<close>

definition skl_inv :: "skiplist \<Rightarrow> (nat \<Rightarrow> u32 list) \<Rightarrow> bool" where
  "skl_inv s Ls =
     (case arena s of
        None \<Rightarrow> False
      | Some a \<Rightarrow>
          1 \<le> height s \<and> height s \<le> maxHeight
          \<and> (\<forall>l<maxHeight. level_ok s a l (Ls l))
          \<and> (\<forall>l. Suc l < maxHeight \<longrightarrow> set (Ls (Suc l)) \<subseteq> set (Ls l))
          \<and> arena_ok a)"

text \<open>The arena of a live skiplist.\<close>

definition arenaOf :: "skiplist \<Rightarrow> arena" where
  "arenaOf s = (case arena s of None \<Rightarrow> newArena 0 | Some a \<Rightarrow> a)"

text \<open>
  The four queries of \<open>findNear\<close> as the spec words them, on the ordered node list of
  the base level: the leftmost node with a key greater than (or equal to) the search
  key, or the rightmost node with a key less than (or equal to) it; \<open>nil\<close> when there
  is none; the flag says whether the key of the node found equals the search key.
\<close>

definition nearest :: "arena \<Rightarrow> u32 list \<Rightarrow> Key \<Rightarrow> bool \<Rightarrow> bool \<Rightarrow> u32 \<times> bool" where
  "nearest a xs key less' allowEqual =
     (case (if less'
            then find (\<lambda>p. if allowEqual then Compare (kof a p) key \<le> 0
                           else Compare (kof a p) key < 0) (rev xs)
            else find (\<lambda>p. if allowEqual then Compare (kof a p) key \<ge> 0
                           else Compare (kof a p) key > 0) xs) of
        None \<Rightarrow> (0, False)
      | Some p \<Rightarrow> (p, Compare key (kof a p) = 0))"

text \<open>The entries of a node list, and the effect of a put on the entries of a list.\<close>

definition entries :: "arena \<Rightarrow> u32 list \<Rightarrow> (Key \<times> ValueStruct) list" where
  "entries a xs = map (\<lambda>p. (kof a p, vof a p)) xs"

fun upsert :: "Key \<Rightarrow> ValueStruct \<Rightarrow> (Key \<times> ValueStruct) list \<Rightarrow> (Key \<times> ValueStruct) list" where
  "upsert k v [] = [(k, v)]"
| "upsert k v ((k', v') # es) =
     (if k = k' then (k', v) # es
      else if keyLess k k' then (k, v) # (k', v') # es
      else (k', v') # upsert k v es)"

section \<open>Example inputs\<close>

text \<open>
  Keys of user key \<open>k\<close> (byte 107) and of user key \<open>a\<close> (byte 97), one-byte values, and
  two sequences of draws: \<open>lowTower\<close> makes \<open>randomHeight\<close> return 1, \<open>highTower\<close> makes
  it return 3.
\<close>

definition keyK :: "u64 \<Rightarrow> Key" where
  "keyK ver = \<lparr>UserKey = [107], Version = ver\<rparr>"

definition keyA :: "u64 \<Rightarrow> Key" where
  "keyA ver = \<lparr>UserKey = [97], Version = ver\<rparr>"

definition valueOfByte :: "u8 \<Rightarrow> ValueStruct" where
  "valueOfByte b = \<lparr>Meta = 0, UserMeta = 0, ExpiresAt = 0, Value = [b], Version = 0\<rparr>"

definition lowTower :: "nat \<Rightarrow> u32" where
  "lowTower i = 4294967295"

definition highTower :: "nat \<Rightarrow> u32" where
  "highTower i = (if i < 2 then 0 else 4294967295)"

section \<open>The splice of a key on a level\<close>

text \<open>
  On an ascending level \<open>xs\<close>, the nodes before a key and the nodes from the key on;
  the splice of the key is the last node before it (the head when there is none) and
  the first node from it on (\<open>nil\<close> when there is none).
\<close>

definition nodesBefore :: "arena \<Rightarrow> Key \<Rightarrow> u32 list \<Rightarrow> u32 list" where
  "nodesBefore a key xs = takeWhile (\<lambda>q. keyLess (kof a q) key) xs"

definition nodesFrom :: "arena \<Rightarrow> Key \<Rightarrow> u32 list \<Rightarrow> u32 list" where
  "nodesFrom a key xs = dropWhile (\<lambda>q. keyLess (kof a q) key) xs"

definition befOf :: "skiplist \<Rightarrow> arena \<Rightarrow> Key \<Rightarrow> u32 list \<Rightarrow> u32" where
  "befOf s a key xs = last (head s # nodesBefore a key xs)"

definition aftOf :: "arena \<Rightarrow> Key \<Rightarrow> u32 list \<Rightarrow> u32" where
  "aftOf a key xs = (case nodesFrom a key xs of [] \<Rightarrow> 0 | q # _ \<Rightarrow> q)"

definition matchOf :: "arena \<Rightarrow> Key \<Rightarrow> u32 list \<Rightarrow> bool" where
  "matchOf a key xs = (case nodesFrom a key xs of [] \<Rightarrow> False | q # _ \<Rightarrow> key = kof a q)"

text \<open>The levels of a list after a new node \<open>x\<close> of height \<open>ht\<close> has been linked in.\<close>

definition withNode :: "arena \<Rightarrow> Key \<Rightarrow> u32 \<Rightarrow> nat \<Rightarrow> (nat \<Rightarrow> u32 list) \<Rightarrow> nat \<Rightarrow> u32 list" where
  "withNode a key x ht Ls l =
     (if l < ht then nodesBefore a key (Ls l) @ x # nodesFrom a key (Ls l) else Ls l)"

text \<open>Entries in strictly ascending key order, and the lookup of \<open>Get\<close> on entries.\<close>

definition sortedKeys :: "(Key \<times> ValueStruct) list \<Rightarrow> bool" where
  "sortedKeys es = sorted_wrt keyLess (map fst es)"

definition lookupEntries :: "Key \<Rightarrow> (Key \<times> ValueStruct) list \<Rightarrow> ValueStruct" where
  "lookupEntries key es =
     (case find (\<lambda>e. Compare (fst e) key \<ge> 0) es of
        None \<Rightarrow> emptyValue
      | Some e \<Rightarrow>
          if SameUserKey key (fst e)
          then (snd e)\<lparr>ValueStruct.Version := Key.Version (fst e)\<rparr>
          else emptyValue)"

text \<open>
  Three lists as the code builds them in an arena of 4096 bytes: the new list, the list
  after \<open>Put\<close> of \<open>k@3\<close> with value byte 1 (a tower of height 1), and the list after
  a further \<open>Put\<close> of \<open>k@7\<close> with value byte 2 (a tower of height 3).
\<close>

definition emptyList :: skiplist where
  "emptyList =
     \<lparr>height = 1, head = 8,
      arena = Some
        \<lparr>cursor = 122, buflen = 4096,
         nodes = [8 \<mapsto> \<lparr>nvalue = 42949673072, keyOffset = 104, keySize = 8, nheight = 20,
                          tower = replicate 20 0\<rparr>],
         keys = [104 \<mapsto> \<lparr>UserKey = [], Version = 0\<rparr>],
         vals = [112 \<mapsto> \<lparr>Meta = 0, UserMeta = 0, ExpiresAt = 0, Value = [], Version = 0\<rparr>]\<rparr>\<rparr>"

definition listK3 :: skiplist where
  "listK3 =
     \<lparr>height = 1, head = 8,
      arena = Some
        \<lparr>cursor = 169, buflen = 4096,
         nodes = [128 \<mapsto> \<lparr>nvalue = 47244640414, keyOffset = 149, keySize = 9, nheight = 1,
                            tower = [0]\<rparr>,
                  8 \<mapsto> \<lparr>nvalue = 42949673072, keyOffset = 104, keySize = 8, nheight = 20,
                          tower = (replicate 20 0)[0 := 128]\<rparr>],
         keys = [104 \<mapsto> \<lparr>UserKey = [], Version = 0\<rparr>,
                 149 \<mapsto> \<lparr>UserKey = [107], Version = 3\<rparr>],
         vals = [112 \<mapsto> \<lparr>Meta = 0, UserMeta = 0, ExpiresAt = 0, Value = [], Version = 0\<rparr>,
                 158 \<mapsto> \<lparr>Meta = 0, UserMeta = 0, ExpiresAt = 0, Value = [1], Version = 0\<rparr>]\<rparr>\<rparr>"

definition listK37 :: skiplist where
  "listK37 =
     \<lparr>height = Suc (Suc (Suc 0)), head = 8,
      arena = Some
        \<lparr>cursor = 224, buflen = 4096,
         nodes = [128 \<mapsto> \<lparr>nvalue = 47244640414, keyOffset = 149, keySize = 9, nheight = 1,
                            tower = [0]\<rparr>,
                  176 \<mapsto> \<lparr>nvalue = 47244640469, keyOffset = 204, keySize = 9, nheight = 3,
                            tower = [128, 0, 0]\<rparr>,
                  8 \<mapsto> \<lparr>nvalue = 42949673072, keyOffset = 104, keySize = 8, nheight = 20,
                          tower = (replicate 20 0)[0 := 176, Suc 0 := 176, Suc (Suc 0) := 176]\<rparr>],
         keys = [104 \<mapsto> \<lparr>UserKey = [], Version = 0\<rparr>,
                 149 \<mapsto> \<lparr>UserKey = [107], Version = 3\<rparr>,
                 204 \<mapsto> \<lparr>UserKey = [107], Version = 7\<rparr>],
         vals = [112 \<mapsto> \<lparr>Meta = 0, UserMeta = 0, ExpiresAt = 0, Value = [], Version = 0\<rparr>,
                 158 \<mapsto> \<lparr>Meta = 0, UserMeta = 0, ExpiresAt = 0, Value = [1], Version = 0\<rparr>,
                 213 \<mapsto> \<lparr>Meta = 0, UserMeta = 0, ExpiresAt = 0, Value = [2], Version = 0\<rparr>]\<rparr>\<rparr>"

text \<open>The node lists of the levels of \<open>listK3\<close> and of \<open>listK37\<close>.\<close>

definition levelsK3 :: "nat \<Rightarrow> u32 list" where
  "levelsK3 l = (if l = 0 then [128] else [])"

definition levelsK37 :: "nat \<Rightarrow> u32 list" where
  "levelsK37 l = (if l = 0 then [176, 128] else if l < 3 then [176] else [])"

text \<open>
  The nodes a query of \<open>findNear\<close> asks for: with \<open>less\<close> the nodes whose key is less than
  the search key (or equal to it, with \<open>allowEqual\<close>), without \<open>less\<close> the nodes whose
  key is greater than it (or equal to it, with \<open>allowEqual\<close>).
\<close>

definition wanted :: "arena \<Rightarrow> Key \<Rightarrow> bool \<Rightarrow> bool \<Rightarrow> u32 \<Rightarrow> bool" where
  "wanted a key less' allowEqual p =
     (if less' then (if allowEqual then Compare (kof a p) key \<le> 0 else Compare (kof a p) key < 0)
      else (if allowEqual then Compare (kof a p) key \<ge> 0 else Compare (kof a p) key > 0))"

text \<open>
  A caller that keeps one hint across a list of \<open>PutWithHint\<close> calls, each with its
  key, its value and the draws of its call; and the entries that the forward iteration
  of a list visits.
\<close>

fun putAllWithHint ::
  "skiplist \<Rightarrow> hint \<Rightarrow> (Key \<times> ValueStruct \<times> (nat \<Rightarrow> u32)) list \<Rightarrow> (error + (skiplist \<times> hint)) option" where
  "putAllWithHint s h [] = Some (Inr (s, h))"
| "putAllWithHint s h ((k, v, rnd) # ps) =
     (case PutWithHint s k v (Some h) rnd of
        None \<Rightarrow> None
      | Some (Inl e) \<Rightarrow> Some (Inl e)
      | Some (Inr (s', h')) \<Rightarrow> putAllWithHint s' h' ps)"

definition contents :: "skiplist \<Rightarrow> (Key \<times> ValueStruct) list option" where
  "contents s = (case forward s of Some (Inr (es, it)) \<Rightarrow> Some es | _ \<Rightarrow> None)"

section \<open>Properties\<close>

lemma bytesCompare_eq0: "bytesCompare xs ys = 0 \<longleftrightarrow> xs = ys"
  by (induction xs ys rule: bytesCompare.induct) auto

lemma bytesCompare_sym: "bytesCompare ys xs = - bytesCompare xs ys"
  by (induction xs ys rule: bytesCompare.induct) auto

lemma bytesCompare_trans:
  "bytesCompare xs ys < 0 \<Longrightarrow> bytesCompare ys zs < 0 \<Longrightarrow> bytesCompare xs zs < 0"
proof (induction xs ys arbitrary: zs rule: bytesCompare.induct)
  case 1 then show ?case by simp
next
  case (2 y ys) then show ?case by (cases zs) auto
next
  case (3 x xs) then show ?case by simp
next
  case (4 x xs y ys)
  then show ?case by (cases zs) (auto split: if_splits)
qed

lemma Compare_eq0: "Compare a b = 0 \<longleftrightarrow> a = b"
  by (auto simp: Compare_def Let_def bytesCompare_eq0)

lemma Compare_sym: "Compare b a = - Compare a b"
  using bytesCompare_sym[of "UserKey a" "UserKey b"]
  by (auto simp: Compare_def Let_def bytesCompare_eq0)

lemma Compare_trans:
  "Compare a b < 0 \<Longrightarrow> Compare b c < 0 \<Longrightarrow> Compare a c < 0"
  using bytesCompare_trans[of "UserKey a" "UserKey b" "UserKey c"]
    bytesCompare_eq0[of "UserKey a" "UserKey b"] bytesCompare_eq0[of "UserKey b" "UserKey c"]
  by (auto simp: Compare_def Let_def split: if_splits)

lemma keyLess_irrefl: "\<not> keyLess k k"
  using Compare_eq0[of k k] by (simp add: keyLess_def)

lemma keyLess_trans: "keyLess a b \<Longrightarrow> keyLess b c \<Longrightarrow> keyLess a c"
  unfolding keyLess_def by (rule Compare_trans)

lemma keyLess_asym: "keyLess a b \<Longrightarrow> \<not> keyLess b a"
  using Compare_sym[of a b] by (simp add: keyLess_def)

lemma keyLess_total: "keyLess a b \<or> a = b \<or> keyLess b a"
  using Compare_sym[of a b] Compare_eq0[of a b] by (auto simp: keyLess_def)

lemma Compare_gt_iff: "Compare a b > 0 \<longleftrightarrow> keyLess b a"
  using Compare_sym[of a b] by (auto simp: keyLess_def)

lemma Compare_lt_iff: "Compare a b < 0 \<longleftrightarrow> keyLess a b"
  by (simp add: keyLess_def)

lemma Compare_le_iff: "Compare a b \<le> 0 \<longleftrightarrow> \<not> keyLess b a"
  using Compare_gt_iff[of a b] by auto

lemma Compare_ge_iff: "Compare a b \<ge> 0 \<longleftrightarrow> \<not> keyLess a b"
  by (auto simp: keyLess_def)

lemma decode_encode: "decodeValue (encodeValue a b) = (a, b)"
proof -
  have nb: "\<not> bit a (32 + n)" for n
    using bit_imp_le_length[of a "32 + n"] by auto
  show ?thesis
    unfolding decodeValue_def encodeValue_def
    by (auto intro!: bit_word_eqI simp add: bit_simps nb)
qed

lemma withArena_Some: "arena s = Some a \<Longrightarrow> withArena s f = f a"
  by (simp add: withArena_def)

lemma getNext_Some: "arena s = Some a \<Longrightarrow> getNext s p l = getNextOffset a p l"
  by (simp add: getNext_def withArena_def getNode_def split: sum.splits)

lemma stored_key: "stored a p \<Longrightarrow> node_key a p = Inr (kof a p)"
  by (auto simp: stored_def kof_def split: sum.splits)

lemma stored_value: "stored a p \<Longrightarrow> readValue a p = Inr (vof a p)"
  by (auto simp: stored_def vof_def split: sum.splits)

lemma chain_nonzero: "chain a l p xs \<Longrightarrow> 0 \<notin> set xs"
  by (induction xs arbitrary: p) auto

lemma getNextOffset_nonzero: "getNextOffset a p l = Inr q \<Longrightarrow> p \<noteq> 0"
  by (auto simp: getNextOffset_def deref_def)

lemma chain_start: "chain a l p xs \<Longrightarrow> p \<noteq> 0"
  by (cases xs) (auto dest: getNextOffset_nonzero)

lemma findSplice_chain:
  assumes a: "arena s = Some a"
  shows "chain a l p xs \<Longrightarrow> \<forall>q\<in>set xs. stored a q \<Longrightarrow>
     findSpliceForLevel s key p l =
       Some (Inr (last (p # takeWhile (\<lambda>q. keyLess (kof a q) key) xs),
                  (case dropWhile (\<lambda>q. keyLess (kof a q) key) xs of [] \<Rightarrow> 0 | q # _ \<Rightarrow> q),
                  (case dropWhile (\<lambda>q. keyLess (kof a q) key) xs of [] \<Rightarrow> False
                   | q # _ \<Rightarrow> key = kof a q)))"
proof (induction xs arbitrary: p)
  case Nil
  then show ?case
    by (subst findSpliceForLevel.simps) (simp add: getNext_Some[OF a])
next
  case (Cons q qs)
  from Cons.prems have q: "q \<noteq> 0" "getNextOffset a p l = Inr q" "chain a l q qs"
    and k: "node_key a q = Inr (kof a q)"
    by (auto simp: stored_key)
  show ?case
  proof (cases "keyLess (kof a q) key")
    case True
    have "findSpliceForLevel s key p l = findSpliceForLevel s key q l"
      using q k True
      by (subst findSpliceForLevel.simps)
         (simp add: getNext_Some[OF a] withArena_Some[OF a] Let_def Compare_gt_iff Compare_le_iff)
    also have "\<dots> = Some (Inr (last (q # takeWhile (\<lambda>q. keyLess (kof a q) key) qs),
                  (case dropWhile (\<lambda>q. keyLess (kof a q) key) qs of [] \<Rightarrow> 0 | q # _ \<Rightarrow> q),
                  (case dropWhile (\<lambda>q. keyLess (kof a q) key) qs of [] \<Rightarrow> False
                   | q # _ \<Rightarrow> key = kof a q)))"
      using Cons.IH[OF q(3)] Cons.prems(2) by simp
    finally show ?thesis using True by simp
  next
    case False
    then show ?thesis
      using q k
      by (subst findSpliceForLevel.simps)
         (simp add: getNext_Some[OF a] withArena_Some[OF a] Let_def Compare_gt_iff Compare_le_iff Compare_eq0)
  qed
qed

lemma chain_last: "chain a l p (xs @ ys) \<Longrightarrow> chain a l (last (p # xs)) ys"
  by (induction xs arbitrary: p) auto

lemma chain_mem_split:
  assumes "chain a l p xs" "x \<in> set xs"
  shows "\<exists>pre suf. xs = pre @ x # suf \<and> chain a l x suf"
proof -
  from assms(2) obtain pre suf where xs: "xs = pre @ x # suf"
    by (auto dest: split_list)
  with assms(1) have "chain a l p ((pre @ [x]) @ suf)" by simp
  then have "chain a l (last (p # pre @ [x])) suf" by (rule chain_last)
  then have "chain a l x suf" by simp
  with xs show ?thesis by blast
qed

lemma chain_frame:
  "chain a l p xs \<Longrightarrow> \<forall>q\<in>set (p # xs). getNextOffset a' q l = getNextOffset a q l
     \<Longrightarrow> chain a' l p xs"
  by (induction xs arbitrary: p) auto

lemma ascending_append:
  "ascending a (xs @ ys) \<longleftrightarrow>
     ascending a xs \<and> ascending a ys \<and> (\<forall>p\<in>set xs. \<forall>q\<in>set ys. keyLess (kof a p) (kof a q))"
  by (simp add: ascending_def sorted_wrt_append)

lemma ascending_Cons:
  "ascending a (x # ys) \<longleftrightarrow> ascending a ys \<and> (\<forall>q\<in>set ys. keyLess (kof a x) (kof a q))"
  by (auto simp: ascending_def)

lemma ascending_distinct: "ascending a xs \<Longrightarrow> distinct xs"
  by (induction xs) (auto simp: ascending_Cons keyLess_irrefl)

lemma find_first: "\<forall>p\<in>set A. \<not> P p \<Longrightarrow> P q \<Longrightarrow> find P (A @ q # B) = Some q"
  by (induction A) auto

lemma find_none: "\<forall>p\<in>set xs. \<not> P p \<Longrightarrow> find P xs = None"
  by (induction xs) auto

lemma find_last: "\<forall>p\<in>set B. \<not> P p \<Longrightarrow> P q \<Longrightarrow> find P (rev (A @ q # B)) = Some q"
  using find_first[of "rev B" P q "rev A"] by simp

text \<open>Facts of the invariant.\<close>

lemma inv_arena: "skl_inv s Ls \<Longrightarrow> \<exists>a. arena s = Some a"
  by (auto simp: skl_inv_def split: option.splits)

lemma inv_level: "skl_inv s Ls \<Longrightarrow> arena s = Some a \<Longrightarrow> l < maxHeight \<Longrightarrow> level_ok s a l (Ls l)"
  by (auto simp: skl_inv_def)

lemma inv_height: "skl_inv s Ls \<Longrightarrow> 1 \<le> height s \<and> height s \<le> maxHeight"
  by (auto simp: skl_inv_def split: option.splits)

lemma inv_nest: "skl_inv s Ls \<Longrightarrow> Suc l < maxHeight \<Longrightarrow> set (Ls (Suc l)) \<subseteq> set (Ls l)"
  by (auto simp: skl_inv_def split: option.splits)

lemma inv_nest_le:
  assumes "skl_inv s Ls" "l < maxHeight" "k \<le> l"
  shows "set (Ls l) \<subseteq> set (Ls k)"
  using assms(3,2)
proof (induction l rule: dec_induct)
  case base then show ?case by simp
next
  case (step n)
  then have "set (Ls (Suc n)) \<subseteq> set (Ls n)" using inv_nest[OF assms(1)] by simp
  with step show ?case by auto
qed

lemma inv_arena_ok: "skl_inv s Ls \<Longrightarrow> arena s = Some a \<Longrightarrow> arena_ok a"
  by (auto simp: skl_inv_def)

lemma level_chain: "level_ok s a l xs \<Longrightarrow> chain a l (head s) xs"
  by (simp add: level_ok_def)

lemma level_stored: "level_ok s a l xs \<Longrightarrow> p \<in> set xs \<Longrightarrow> stored a p"
  by (simp add: level_ok_def)

lemma level_ascending: "level_ok s a l xs \<Longrightarrow> ascending a xs"
  by (simp add: level_ok_def)

lemma level_head: "level_ok s a l xs \<Longrightarrow> head s \<notin> set xs"
  by (simp add: level_ok_def)

lemma pos_exists:
  assumes inv: "skl_inv s Ls" and a: "arena s = Some a" and l: "l < maxHeight"
      and n: "n = head s \<or> n \<in> set (Ls l)"
  shows "\<exists>pre suf. Ls l = pre @ suf \<and> n = last (head s # pre) \<and> chain a l n suf"
proof -
  have c: "chain a l (head s) (Ls l)"
    using inv_level[OF inv a l] by (rule level_chain)
  show ?thesis
  proof (cases "n \<in> set (Ls l)")
    case True
    from chain_mem_split[OF c True] obtain pre suf
      where "Ls l = pre @ n # suf" "chain a l n suf" by blast
    then have "Ls l = (pre @ [n]) @ suf \<and> n = last (head s # pre @ [n]) \<and> chain a l n suf"
      by simp
    then show ?thesis by blast
  next
    case False
    with n have "n = head s" by simp
    with c have "Ls l = [] @ Ls l \<and> n = last (head s # []) \<and> chain a l n (Ls l)" by simp
    then show ?thesis by blast
  qed
qed

lemma pos_mem: "n = last (hd0 # pre) \<Longrightarrow> n = hd0 \<or> n \<in> set pre"
  by (cases "pre = []") auto

lemma findLast_loop_correct:
  assumes inv: "skl_inv s Ls" and a: "arena s = Some a"
  shows "level < maxHeight \<Longrightarrow> Ls level = pre @ suf \<Longrightarrow> n = last (head s # pre)
     \<Longrightarrow> chain a level n suf
     \<Longrightarrow> findLast_loop s n level = Some (Inr (if Ls 0 = [] then 0 else last (Ls 0)))"
proof (induction level arbitrary: n pre suf)
  case 0
  have hd: "head s \<notin> set (Ls 0)"
    using inv_level[OF inv a "0.prems"(1)] by (rule level_head)
  from "0.prems"(2-) show ?case
  proof (induction suf arbitrary: n pre)
    case Nil
    moreover have "Ls 0 \<noteq> [] \<longrightarrow> last (Ls 0) \<noteq> head s"
      using hd by (metis last_in_set)
    ultimately show ?case
      by (subst findLast_loop.simps) (auto simp: getNext_Some[OF a])
  next
    case (Cons q qs)
    from Cons.prems have "findLast_loop s n 0 = findLast_loop s q 0"
      by (subst findLast_loop.simps) (simp add: getNext_Some[OF a])
    also have "\<dots> = Some (Inr (if Ls 0 = [] then 0 else last (Ls 0)))"
      using Cons.prems by (intro Cons.IH[of "pre @ [q]"]) auto
    finally show ?case .
  qed
next
  case (Suc k)
  from Suc.prems(2-) show ?case
  proof (induction suf arbitrary: n pre)
    case Nil
    then have "n = head s \<or> n \<in> set (Ls (Suc k))" using pos_mem[of n "head s" pre] by auto
    moreover have "set (Ls (Suc k)) \<subseteq> set (Ls k)"
      using inv_nest[OF inv] Suc.prems(1) by simp
    ultimately have "n = head s \<or> n \<in> set (Ls k)" by auto
    from pos_exists[OF inv a _ this] Suc.prems(1) obtain pre' suf'
      where p: "Ls k = pre' @ suf'" "n = last (head s # pre')" "chain a k n suf'" by auto
    from Nil have "findLast_loop s n (Suc k) = findLast_loop s n k"
      by (subst findLast_loop.simps) (simp add: getNext_Some[OF a])
    also have "\<dots> = Some (Inr (if Ls 0 = [] then 0 else last (Ls 0)))"
      using Suc.IH[OF _ p] Suc.prems(1) by simp
    finally show ?case .
  next
    case (Cons q qs)
    from Cons.prems have "findLast_loop s n (Suc k) = findLast_loop s q (Suc k)"
      by (subst findLast_loop.simps) (simp add: getNext_Some[OF a])
    also have "\<dots> = Some (Inr (if Ls 0 = [] then 0 else last (Ls 0)))"
      using Cons.prems by (intro Cons.IH[of "pre @ [q]"]) auto
    finally show ?case .
  qed
qed

lemma findLast_correct:
  assumes inv: "skl_inv s Ls" and a: "arena s = Some a"
  shows "findLast s = Some (Inr (if Ls 0 = [] then 0 else last (Ls 0)))"
proof -
  from inv_height[OF inv] have h: "height s \<noteq> 0" "height s - 1 < maxHeight" by auto
  have c: "chain a (height s - 1) (head s) (Ls (height s - 1))"
    using inv_level[OF inv a h(2)] by (rule level_chain)
  show ?thesis
    using findLast_loop_correct[OF inv a h(2), of "[]" "Ls (height s - 1)" "head s"] c h
    by (simp add: findLast_def getHeight_def)
qed

lemma keyLess_not_eq: "keyLess a b \<Longrightarrow> a \<noteq> b"
  using keyLess_irrefl by auto

lemma near_eq:
  assumes asc: "ascending a xs" and q: "q \<in> set xs" and k: "kof a q = key"
  shows "nearest a xs key less' True = (q, True)"
proof -
  from q obtain A B where xs: "xs = A @ q # B" by (auto dest: split_list)
  from asc xs have A: "\<forall>p\<in>set A. keyLess (kof a p) key"
    and B: "\<forall>p\<in>set B. keyLess key (kof a p)"
    using k by (auto simp: ascending_append ascending_Cons)
  have 1: "find (\<lambda>p. Compare (kof a p) key \<ge> 0) (A @ q # B) = Some q"
    using A k by (intro find_first) (auto simp: Compare_ge_iff keyLess_irrefl)
  have 2: "find (\<lambda>p. Compare (kof a p) key \<le> 0) (rev (A @ q # B)) = Some q"
    using B k by (intro find_last) (auto simp: Compare_le_iff keyLess_irrefl)
  show ?thesis using 1 2 k xs by (simp add: nearest_def Compare_eq0)
qed

lemma near_gt:
  assumes asc: "ascending a (A @ q # B)" and k: "kof a q = key"
  shows "nearest a (A @ q # B) key False False = (case B of [] \<Rightarrow> (0, False) | r # _ \<Rightarrow> (r, False))"
proof -
  from asc have A: "\<forall>p\<in>set A. keyLess (kof a p) key"
    and B: "\<forall>p\<in>set B. keyLess key (kof a p)"
    using k by (auto simp: ascending_append ascending_Cons)
  have nA: "\<forall>p\<in>set (A @ [q]). \<not> Compare (kof a p) key > 0"
    using A k by (auto simp: Compare_gt_iff keyLess_irrefl dest: keyLess_asym)
  show ?thesis
  proof (cases B)
    case Nil
    then have "find (\<lambda>p. Compare (kof a p) key > 0) (A @ q # B) = None"
      using nA by (intro find_none) auto
    with Nil show ?thesis by (simp add: nearest_def)
  next
    case (Cons r rs)
    have "find (\<lambda>p. Compare (kof a p) key > 0) ((A @ [q]) @ r # rs) = Some r"
      using nA B Cons by (intro find_first) (auto simp: Compare_gt_iff)
    moreover have "key \<noteq> kof a r" using B Cons by (auto dest: keyLess_not_eq)
    ultimately show ?thesis using Cons by (simp add: nearest_def Compare_eq0)
  qed
qed

lemma near_less:
  assumes pre: "\<forall>p\<in>set pre. keyLess (kof a p) key"
      and suf: "\<forall>q\<in>set suf. \<not> keyLess (kof a q) key"
      and eq: "allowEqual \<longrightarrow> (\<forall>q\<in>set suf. kof a q \<noteq> key)"
  shows "nearest a (pre @ suf) key True allowEqual =
           (if pre = [] then (0, False) else (last pre, False))"
proof -
  let ?P = "\<lambda>p. if allowEqual then Compare (kof a p) key \<le> 0 else Compare (kof a p) key < 0"
  have nS: "\<forall>q\<in>set suf. \<not> ?P q"
    using suf eq keyLess_total by (auto simp: Compare_le_iff Compare_lt_iff)
  have yP: "\<forall>p\<in>set pre. ?P p"
    using pre by (auto simp: Compare_le_iff Compare_lt_iff dest: keyLess_asym)
  show ?thesis
  proof (cases "pre = []")
    case True
    then have "find ?P (rev (pre @ suf)) = None" using nS by (intro find_none) auto
    with True show ?thesis by (simp add: nearest_def)
  next
    case False
    then obtain ps x where p: "pre = ps @ [x]" by (metis rev_exhaust)
    then have "find ?P (rev (ps @ x # suf)) = Some x"
      using nS yP by (intro find_last) auto
    moreover have "key \<noteq> kof a x" using pre p by (auto dest: keyLess_not_eq)
    ultimately show ?thesis using p by (simp add: nearest_def Compare_eq0)
  qed
qed

lemma near_geq:
  assumes pre: "\<forall>p\<in>set pre. keyLess (kof a p) key"
      and suf: "\<forall>q\<in>set suf. keyLess key (kof a q)"
  shows "nearest a (pre @ suf) key False allowEqual =
           (case suf of [] \<Rightarrow> (0, False) | q # _ \<Rightarrow> (q, False))"
proof -
  let ?P = "\<lambda>p. if allowEqual then Compare (kof a p) key \<ge> 0 else Compare (kof a p) key > 0"
  have nP: "\<forall>p\<in>set pre. \<not> ?P p"
    using pre by (auto simp: Compare_ge_iff Compare_gt_iff dest: keyLess_asym)
  have yS: "\<forall>q\<in>set suf. ?P q"
    using suf by (auto simp: Compare_ge_iff Compare_gt_iff dest: keyLess_asym)
  show ?thesis
  proof (cases suf)
    case Nil
    then have "find ?P (pre @ suf) = None" using nP by (intro find_none) auto
    with Nil show ?thesis by (simp add: nearest_def)
  next
    case (Cons q qs)
    then have "find ?P (pre @ q # qs) = Some q" using nP yS by (intro find_first) auto
    moreover have "key \<noteq> kof a q" using suf Cons by (auto dest: keyLess_not_eq)
    ultimately show ?thesis using Cons by (simp add: nearest_def Compare_eq0)
  qed
qed

lemma before_pos:
  assumes asc: "ascending a (pre @ suf)" and hd: "hd0 \<notin> set (pre @ suf)"
      and x: "x = last (hd0 # pre)" and k: "x = hd0 \<or> keyLess (kof a x) key"
  shows "\<forall>p\<in>set pre. keyLess (kof a p) key"
proof (cases "pre = []")
  case True then show ?thesis by simp
next
  case False
  then obtain ps y where p: "pre = ps @ [y]" by (metis rev_exhaust)
  with x have xy: "x = y" by simp
  with hd p have "x \<noteq> hd0" by auto
  with k have kx: "keyLess (kof a x) key" by simp
  from asc p xy have "\<forall>q\<in>set ps. keyLess (kof a q) (kof a x)"
    by (auto simp: ascending_append ascending_Cons)
  with kx p xy show ?thesis by (auto intro: keyLess_trans)
qed

lemma head_pos: "hd0 \<notin> set pre \<Longrightarrow> x = last (hd0 # pre) \<Longrightarrow> x = hd0 \<longleftrightarrow> pre = []"
  by (cases "pre = []") (auto dest: last_in_set)

lemma findNear_level:
  assumes inv: "skl_inv s Ls" and a: "arena s = Some a" and l: "l < maxHeight"
      and D: "\<And>x afterNode. l > 0 \<Longrightarrow> x = head s \<or> x \<in> set (Ls l)
                \<Longrightarrow> x = head s \<or> keyLess (kof a x) key
                \<Longrightarrow> afterNode = 0 \<or> keyLess key (kof a afterNode)
                \<Longrightarrow> findNear_loop s key less' allowEqual x (l - 1) afterNode = Some (Inr R)"
      and R: "R = nearest a (Ls 0) key less' allowEqual"
  shows "Ls l = pre @ suf \<Longrightarrow> x = last (head s # pre) \<Longrightarrow> chain a l x suf
     \<Longrightarrow> x = head s \<or> keyLess (kof a x) key
     \<Longrightarrow> afterNode = 0 \<or> keyLess key (kof a afterNode)
     \<Longrightarrow> findNear_loop s key less' allowEqual x l afterNode = Some (Inr R)"
proof (induction suf arbitrary: x pre)
  case Nil
  have lv: "level_ok s a l (Ls l)" by (rule inv_level[OF inv a l])
  from Nil.prems have nx: "getNext s x l = Inr 0" by (simp add: getNext_Some[OF a])
  show ?case
  proof (cases "l > 0")
    case True
    have "x = head s \<or> x \<in> set (Ls l)"
      using Nil.prems(1,2) pos_mem[of x "head s" pre] by auto
    from D[OF True this Nil.prems(4,5)] show ?thesis
      using nx True by (subst findNear_loop.simps) simp
  next
    case False
    then have l0: "l = 0" by simp
    have asc: "ascending a (pre @ [])" and hd: "head s \<notin> set (pre @ [])"
      using lv Nil.prems(1) by (auto simp: level_ok_def)
    have pre: "\<forall>p\<in>set pre. keyLess (kof a p) key"
      by (rule before_pos[OF asc hd Nil.prems(2,4)])
    have xh: "x = head s \<longleftrightarrow> pre = []"
      using hd Nil.prems(2) by (intro head_pos) auto
    have xl: "pre \<noteq> [] \<Longrightarrow> x = last pre" using Nil.prems(2) by simp
    have L0: "Ls 0 = pre @ []" using Nil.prems(1) l0 by simp
    show ?thesis
    proof (cases less')
      case True
      have "R = (if pre = [] then (0, False) else (last pre, False))"
        using True near_less[OF pre, of "[]" allowEqual] by (simp add: R L0)
      then show ?thesis using nx l0 True xh xl
        by (subst findNear_loop.simps) auto
    next
      case False
      have "R = (case [] :: u32 list of [] \<Rightarrow> (0, False) | q # _ \<Rightarrow> (q, False))"
        using False near_geq[OF pre, of "[]" allowEqual] by (simp add: R L0)
      then show ?thesis using nx l0 False
        by (subst findNear_loop.simps) auto
    qed
  qed
next
  case (Cons q qs)
  have lv: "level_ok s a l (Ls l)" by (rule inv_level[OF inv a l])
  from Cons.prems have q0: "q \<noteq> 0" and nx: "getNext s x l = Inr q" and cq: "chain a l q qs"
    by (auto simp: getNext_Some[OF a])
  have qin: "q \<in> set (Ls l)" using Cons.prems(1) by simp
  then have "stored a q" using lv by (auto simp: level_ok_def)
  then have kq: "withArena s (\<lambda>a. node_key a q) = Inr (kof a q)"
    by (simp add: withArena_Some[OF a] stored_key)
  have q0in: "q \<in> set (Ls 0)" using inv_nest_le[OF inv l, of 0] qin by auto
  have asc: "ascending a (pre @ q # qs)" and hd: "head s \<notin> set (pre @ q # qs)"
    using lv Cons.prems(1) by (auto simp: level_ok_def)
  have pre: "\<forall>p\<in>set pre. keyLess (kof a p) key"
    by (rule before_pos[OF asc hd Cons.prems(2,4)])
  have xh: "x = head s \<longleftrightarrow> pre = []"
    using hd Cons.prems(2) by (intro head_pos) auto
  have xl: "pre \<noteq> [] \<Longrightarrow> x = last pre" using Cons.prems(2) by simp
  have xin: "x = head s \<or> x \<in> set (Ls l)"
    using Cons.prems(1,2) pos_mem[of x "head s" pre] by auto
  define cmp where "cmp = (if q = afterNode then - 1 else Compare key (kof a q))"
  have cmp_pos: "cmp > 0 \<longleftrightarrow> keyLess (kof a q) key"
    using Cons.prems(5) q0 by (auto simp: cmp_def Compare_gt_iff dest: keyLess_asym)
  have cmp_zero: "cmp = 0 \<longleftrightarrow> key = kof a q"
    using Cons.prems(5) q0 by (auto simp: cmp_def Compare_eq0 dest: keyLess_not_eq)
  have step: "findNear_loop s key less' allowEqual x l afterNode =
     (if cmp > 0 then findNear_loop s key less' allowEqual q l afterNode
      else if cmp = 0 then
        (if allowEqual then Some (Inr (q, True))
         else if \<not> less' then
           (case getNext s q 0 of Inl e \<Rightarrow> Some (Inl e) | Inr r \<Rightarrow> Some (Inr (r, False)))
         else if l > 0 then findNear_loop s key less' allowEqual x (l - 1) afterNode
         else if x = head s then Some (Inr (0, False))
         else Some (Inr (x, False)))
      else
        (if l > 0 then findNear_loop s key less' allowEqual x (l - 1) q
         else if \<not> less' then Some (Inr (q, False))
         else if x = head s then Some (Inr (0, False))
         else Some (Inr (x, False))))"
    using nx q0 kq by (subst findNear_loop.simps) (simp add: cmp_def)
  consider (gt) "cmp > 0" | (eq) "cmp = 0" | (lt) "\<not> cmp > 0" "cmp \<noteq> 0" by blast
  then show ?case
  proof cases
    case gt
    have "findNear_loop s key less' allowEqual q l afterNode = Some (Inr R)"
      using Cons.prems(1) cq gt cmp_pos Cons.prems(5)
      by (intro Cons.IH[of "pre @ [q]"]) auto
    with gt show ?thesis by (subst step) simp
  next
    case eq
    then have k: "kof a q = key" using cmp_zero by simp
    have asc0: "ascending a (Ls 0)"
      using inv_level[OF inv a, of 0] l by (auto simp: level_ok_def)
    show ?thesis
    proof (cases allowEqual)
      case True
      have "R = (q, True)" using True near_eq[OF asc0 q0in k, of less'] by (simp add: R)
      with eq True show ?thesis by (subst step) simp
    next
      case nae: False
      show ?thesis
      proof (cases less')
        case False
        have c0: "chain a 0 (head s) (Ls 0)"
          using inv_level[OF inv a, of 0] l by (auto simp: level_ok_def)
        from chain_mem_split[OF c0 q0in] obtain A B
          where AB: "Ls 0 = A @ q # B" "chain a 0 q B" by blast
        have "R = (case B of [] \<Rightarrow> (0, False) | r # _ \<Rightarrow> (r, False))"
          using False nae near_gt[of a A q B key] asc0 AB(1) k by (simp add: R)
        moreover have "getNext s q 0 = Inr (case B of [] \<Rightarrow> 0 | r # _ \<Rightarrow> r)"
          using AB(2) by (cases B) (auto simp: getNext_Some[OF a])
        ultimately show ?thesis using eq nae False
          by (subst step) (simp split: list.splits)
      next
        case True
        show ?thesis
        proof (cases "l > 0")
          case lp: True
          from D[OF lp xin Cons.prems(4,5)] show ?thesis
            using eq nae True lp by (subst step) simp
        next
          case False
          then have l0: "l = 0" by simp
          have suf: "\<forall>r\<in>set (q # qs). \<not> keyLess (kof a r) key"
            using asc k by (auto simp: ascending_append ascending_Cons keyLess_irrefl dest: keyLess_asym)
          have "R = (if pre = [] then (0, False) else (last pre, False))"
            using True Cons.prems(1) l0 nae near_less[OF pre suf, of allowEqual]
            by (simp add: R)
          then show ?thesis using eq nae True l0 xh xl by (subst step) auto
        qed
      qed
    qed
  next
    case lt
    then have k: "keyLess key (kof a q)"
      using cmp_pos cmp_zero keyLess_total[of key "kof a q"] by auto
    show ?thesis
    proof (cases "l > 0")
      case lp: True
      from D[OF lp xin Cons.prems(4), of q] k show ?thesis
        using lt lp by (subst step) simp
    next
      case False
      then have l0: "l = 0" by simp
      have suf: "\<forall>r\<in>set (q # qs). keyLess key (kof a r)"
        using asc k by (auto simp: ascending_append ascending_Cons intro: keyLess_trans)
      show ?thesis
      proof (cases less')
        case True
        have "R = (if pre = [] then (0, False) else (last pre, False))"
        proof -
          have 1: "\<forall>r\<in>set (q # qs). \<not> keyLess (kof a r) key"
            using suf by (auto dest: keyLess_asym)
          have 2: "allowEqual \<longrightarrow> (\<forall>r\<in>set (q # qs). kof a r \<noteq> key)"
            using suf by (auto dest: keyLess_not_eq)
          show ?thesis
            using True Cons.prems(1) l0 near_less[OF pre 1 2] by (simp add: R)
        qed
        then show ?thesis using lt True l0 xh xl by (subst step) auto
      next
        case False
        have "R = (q, False)"
          using False Cons.prems(1) l0 near_geq[OF pre suf, of allowEqual]
          by (simp add: R)
        then show ?thesis using lt False l0 by (subst step) simp
      qed
    qed
  qed
qed

lemma findNear_loop_correct:
  assumes inv: "skl_inv s Ls" and a: "arena s = Some a"
  shows "l < maxHeight \<Longrightarrow> x = head s \<or> x \<in> set (Ls l)
     \<Longrightarrow> x = head s \<or> keyLess (kof a x) key
     \<Longrightarrow> afterNode = 0 \<or> keyLess key (kof a afterNode)
     \<Longrightarrow> findNear_loop s key less' allowEqual x l afterNode =
           Some (Inr (nearest a (Ls 0) key less' allowEqual))"
proof (induction l arbitrary: x afterNode)
  case 0
  from pos_exists[OF inv a "0.prems"(1,2)] obtain pre suf
    where p: "Ls 0 = pre @ suf" "x = last (head s # pre)" "chain a 0 x suf" by blast
  show ?case
    by (rule findNear_level[OF inv a "0.prems"(1) _ refl p "0.prems"(3,4)]) simp
next
  case (Suc k)
  from pos_exists[OF inv a Suc.prems(1,2)] obtain pre suf
    where p: "Ls (Suc k) = pre @ suf" "x = last (head s # pre)" "chain a (Suc k) x suf"
    by blast
  have sub: "set (Ls (Suc k)) \<subseteq> set (Ls k)"
    using inv_nest[OF inv] Suc.prems(1) by simp
  show ?case
  proof (rule findNear_level[OF inv a Suc.prems(1) _ refl p Suc.prems(3,4)])
    fix x' afterNode'
    assume "x' = head s \<or> x' \<in> set (Ls (Suc k))"
      and k: "x' = head s \<or> keyLess (kof a x') key"
      and an: "afterNode' = 0 \<or> keyLess key (kof a afterNode')"
    then have "x' = head s \<or> x' \<in> set (Ls k)" using sub by auto
    from Suc.IH[OF _ this k an] Suc.prems(1)
    show "findNear_loop s key less' allowEqual x' (Suc k - 1) afterNode' =
            Some (Inr (nearest a (Ls 0) key less' allowEqual))"
      by simp
  qed
qed

lemma findNear_correct:
  assumes inv: "skl_inv s Ls" and a: "arena s = Some a"
  shows "findNear s key less' allowEqual = Some (Inr (nearest a (Ls 0) key less' allowEqual))"
proof -
  from inv_height[OF inv] have h: "height s \<noteq> 0" "height s - 1 < maxHeight" by auto
  show ?thesis
    using findNear_loop_correct[OF inv a h(2), of "head s" key 0 less' allowEqual] h
    by (simp add: findNear_def getHeight_def)
qed

lemma find_mem: "find P xs = Some x \<Longrightarrow> x \<in> set xs \<and> P x"
  by (induction xs) (auto split: if_splits)

lemma nearest_cases:
  "nearest a xs key less' allowEqual = (n, eq) \<Longrightarrow>
     (n = 0 \<and> \<not> eq) \<or> (n \<in> set xs \<and> (eq \<longleftrightarrow> Compare key (kof a n) = 0))"
  by (auto simp: nearest_def split: option.splits if_splits dest: find_mem)

lemma lookupNode_stored:
  assumes a: "arena s = Some a" and st: "stored a n" and n: "n \<noteq> 0"
  shows "lookupNode s key n =
           Inr (if SameUserKey key (kof a n)
                then (vof a n)\<lparr>ValueStruct.Version := Key.Version (kof a n)\<rparr>
                else emptyValue)"
proof -
  from stored_key[OF st] obtain nd where nd: "deref a n = Inr nd"
    "getKey a (keyOffset nd) (keySize nd) = Inr (kof a n)"
    by (auto simp: node_key_def split: sum.splits)
  have v: "valueOf a n k = Inr ((vof a n)\<lparr>ValueStruct.Version := Key.Version k\<rparr>)" for k
    using stored_value[OF st]
    by (auto simp: valueOf_def readValue_def split: sum.splits prod.splits)
  show ?thesis using nd v n by (simp add: lookupNode_def withArena_Some[OF a])
qed

lemma Get_correct:
  assumes inv: "skl_inv s Ls" and a: "arena s = Some a"
  shows "Get s key =
     Some (Inr (case find (\<lambda>p. Compare (kof a p) key \<ge> 0) (Ls 0) of
                  None \<Rightarrow> emptyValue
                | Some n \<Rightarrow>
                    if SameUserKey key (kof a n)
                    then (vof a n)\<lparr>ValueStruct.Version := Key.Version (kof a n)\<rparr>
                    else emptyValue))"
proof -
  have lv: "level_ok s a 0 (Ls 0)"
    using inv_level[OF inv a, of 0] by (simp add: maxHeight_def)
  show ?thesis
  proof (cases "find (\<lambda>p. Compare (kof a p) key \<ge> 0) (Ls 0)")
    case None
    then show ?thesis
      by (simp add: Get_def findNear_correct[OF inv a] nearest_def lookupNode_def)
  next
    case (Some n)
    then have "n \<in> set (Ls 0)" by (auto dest: find_mem)
    then have "stored a n" "n \<noteq> 0"
      using lv chain_nonzero[of a 0 "head s" "Ls 0"] by (auto simp: level_ok_def)
    then show ?thesis using Some
      by (simp add: Get_def findNear_correct[OF inv a] nearest_def lookupNode_stored[OF a])
  qed
qed

lemma forward_loop_chain:
  assumes a: "arena s = Some a"
  shows "it_list it = s
     \<Longrightarrow> (case xs of [] \<Rightarrow> it_n it = 0 | q # qs \<Rightarrow> it_n it = q \<and> chain a 0 q qs)
     \<Longrightarrow> \<forall>q\<in>set xs. stored a q \<and> q \<noteq> 0
     \<Longrightarrow> forward_loop it acc = Some (Inr (acc @ entries a xs, it\<lparr>it_n := 0\<rparr>))"
proof (induction xs arbitrary: it acc)
  case Nil
  then show ?case
    by (subst forward_loop.simps) (simp add: Valid_def entries_def)
next
  case (Cons q qs)
  from Cons.prems have q: "it_n it = q" "chain a 0 q qs" "stored a q" "q \<noteq> 0" by auto
  from stored_key[OF q(3)] have k: "iterKey it = Inr (kof a q)"
    using Cons.prems(1) q(1)
    by (auto simp: iterKey_def node_key_def withArena_Some[OF a] split: sum.splits)
  from stored_value[OF q(3)] have v: "iterValue it = Inr (vof a q)"
    using Cons.prems(1) q(1)
    by (auto simp: iterValue_def readValue_def withArena_Some[OF a] split: sum.splits)
  define r where "r = (case qs of [] \<Rightarrow> 0 | r # _ \<Rightarrow> r)"
  have nx: "Next it = Inr (it\<lparr>it_n := r\<rparr>)"
    using q Cons.prems(1) by (cases qs) (auto simp: Next_def Valid_def getNext_Some[OF a] r_def)
  have "forward_loop it acc = forward_loop (it\<lparr>it_n := r\<rparr>) (acc @ [(kof a q, vof a q)])"
    using q k v nx by (subst forward_loop.simps) (simp add: Valid_def)
  also have "\<dots> = Some (Inr ((acc @ [(kof a q, vof a q)]) @ entries a qs, it\<lparr>it_n := r, it_n := 0\<rparr>))"
    using Cons.prems q(2) by (intro Cons.IH) (auto simp: r_def split: list.splits)
  finally show ?case by (simp add: entries_def)
qed

lemma forward_correct:
  assumes inv: "skl_inv s Ls" and a: "arena s = Some a"
  shows "forward s = Some (Inr (entries a (Ls 0), \<lparr>it_list = s, it_n = 0\<rparr>))"
proof -
  have lv: "level_ok s a 0 (Ls 0)"
    using inv_level[OF inv a, of 0] by (simp add: maxHeight_def)
  then have c: "chain a 0 (head s) (Ls 0)" and st: "\<forall>q\<in>set (Ls 0). stored a q \<and> q \<noteq> 0"
    using chain_nonzero[of a 0 "head s" "Ls 0"] by (auto simp: level_ok_def)
  define r where "r = (case Ls 0 of [] \<Rightarrow> 0 | r # _ \<Rightarrow> r)"
  have sf: "SeekToFirst (NewIterator s) = Inr \<lparr>it_list = s, it_n = r\<rparr>"
    using c by (cases "Ls 0") (auto simp: SeekToFirst_def NewIterator_def getNext_Some[OF a] r_def)
  have "forward_loop \<lparr>it_list = s, it_n = r\<rparr> [] =
          Some (Inr ([] @ entries a (Ls 0), \<lparr>it_list = s, it_n = r\<rparr>\<lparr>it_n := 0\<rparr>))"
    using c st by (intro forward_loop_chain[OF a]) (auto simp: r_def split: list.splits)
  then show ?thesis using sf by (simp add: forward_def)
qed

lemma unat_of_nat32: "m < 2 ^ 32 \<Longrightarrow> unat (of_nat m :: u32) = m"
  by (simp add: unat_of_nat)

lemma bump_effect:
  "bump a l = Inr (n, a') \<Longrightarrow> n = cursor a + l \<and> n < 2 ^ 32 \<and> a' = a\<lparr>cursor := n\<rparr>"
  by (auto simp: bump_def Let_def split: if_splits)

lemma bump_error: "bump a l = Inl e \<Longrightarrow> e = OutOfArena"
  by (auto simp: bump_def Let_def split: if_splits)

lemma putVal_error: "putVal a v = Inl e \<Longrightarrow> e = OutOfArena"
  by (auto simp: putVal_def Let_def split: sum.splits dest: bump_error)

lemma putKey_error: "putKey a k = Inl e \<Longrightarrow> e = OutOfArena"
  by (auto simp: putKey_def Let_def split: sum.splits dest: bump_error)

lemma putNode_error: "putNode a h = Inl e \<Longrightarrow> e = OutOfArena"
  by (auto simp: putNode_def Let_def split: sum.splits dest: bump_error)

lemma putVal_effect:
  assumes "putVal a v = Inr (vo, a')" "arena_ok a"
  shows "nodes a' = nodes a \<and> keys a' = keys a \<and> vals a' = (vals a)(vo \<mapsto> v)
           \<and> vals a vo = None \<and> arena_ok a'"
proof -
  from assms(1) obtain n a1 where b: "bump a (encodedLen v) = Inr (n, a1)"
    and vo: "vo = of_nat (n - encodedLen v)" and a': "a' = a1\<lparr>vals := (vals a1)(vo \<mapsto> v)\<rparr>"
    by (auto simp: putVal_def Let_def split: sum.splits)
  from bump_effect[OF b] have n: "n = cursor a + encodedLen v" "n < 2 ^ 32" "a1 = a\<lparr>cursor := n\<rparr>"
    by auto
  have u: "unat vo = cursor a" using vo n by (simp add: unat_of_nat32)
  have fresh: "vals a vo = None" using assms(2) u by (auto simp: arena_ok_def)
  have "arena_ok a'"
    using assms(2) u n a' by (auto simp: arena_ok_def encodedLen_def split: if_splits)
  with fresh a' n show ?thesis by simp
qed

lemma putKey_effect:
  assumes "putKey a k = Inr (ko, a')" "arena_ok a"
  shows "nodes a' = nodes a \<and> keys a' = (keys a)(ko \<mapsto> k) \<and> vals a' = vals a
           \<and> keys a ko = None \<and> arena_ok a'"
proof -
  let ?l = "length (UserKey k) + 8"
  from assms(1) obtain n a1 where b: "bump a ?l = Inr (n, a1)"
    and ko: "ko = of_nat (n - ?l)" and a': "a' = a1\<lparr>keys := (keys a1)(ko \<mapsto> k)\<rparr>"
    by (auto simp: putKey_def Let_def split: sum.splits)
  from bump_effect[OF b] have n: "n = cursor a + ?l" "n < 2 ^ 32" "a1 = a\<lparr>cursor := n\<rparr>"
    by auto
  have u: "unat ko = cursor a" using ko n by (simp add: unat_of_nat32)
  have fresh: "keys a ko = None" using assms(2) u by (auto simp: arena_ok_def)
  have "arena_ok a'"
    using assms(2) u n a' by (auto simp: arena_ok_def split: if_splits)
  with fresh a' n show ?thesis by simp
qed

lemma putNode_effect:
  assumes "putNode a h = Inr (x, a')" "arena_ok a"
  shows "nodes a' = (nodes a)(x \<mapsto> zeroNode h) \<and> keys a' = keys a \<and> vals a' = vals a
           \<and> nodes a x = None \<and> x \<noteq> 0 \<and> arena_ok a'"
proof -
  define l where "l = MaxNodeSize - (maxHeight - h) * offsetSize + nodeAlign"
  from assms(1) obtain n a1 where b: "bump a l = Inr (n, a1)"
    and x: "x = of_nat (((n - l + nodeAlign) div (nodeAlign + 1)) * (nodeAlign + 1))"
    and a': "a' = a1\<lparr>nodes := (nodes a1)(x \<mapsto> zeroNode h)\<rparr>"
    by (auto simp: putNode_def Let_def l_def split: sum.splits)
  from bump_effect[OF b] have n: "n = cursor a + l" "n < 2 ^ 32" "a1 = a\<lparr>cursor := n\<rparr>"
    by auto
  have l23: "l \<ge> 23"
    by (simp add: l_def MaxNodeSize_def maxHeight_def offsetSize_def nodeAlign_def)
  define m where "m = ((cursor a + 7) div 8) * 8"
  have xm: "x = of_nat m" using x n by (simp add: m_def nodeAlign_def)
  have c1: "1 \<le> cursor a" using assms(2) by (simp add: arena_ok_def)
  have m1: "cursor a \<le> m" "m \<le> cursor a + 7" "8 \<le> m"
    using c1 unfolding m_def by presburger+
  then have u: "unat x = m" using xm n l23 by (simp add: unat_of_nat32)
  have fresh: "nodes a x = None" using assms(2) u m1 by (auto simp: arena_ok_def)
  have x0: "x \<noteq> 0" using u m1 by auto
  have "arena_ok a'"
    using assms(2) u n a' m1 l23 by (auto simp: arena_ok_def split: if_splits)
  with fresh a' n x0 show ?thesis by simp
qed

lemma getNextOffset_alloc: "getNextOffset a p l = Inr q \<Longrightarrow> p \<noteq> 0 \<and> nodes a p \<noteq> None"
  by (auto simp: getNextOffset_def deref_def split: if_splits option.splits)

lemma node_key_alloc: "node_key a p = Inr k \<Longrightarrow> p \<noteq> 0 \<and> nodes a p \<noteq> None"
  by (auto simp: node_key_def deref_def split: if_splits option.splits)

lemma readValue_alloc: "readValue a p = Inr v \<Longrightarrow> p \<noteq> 0 \<and> nodes a p \<noteq> None"
  by (auto simp: readValue_def getValueOffset_def deref_def split: if_splits option.splits)

lemma newNode_parts:
  assumes nn: "newNode a key v h = Inr (x, a')" and ok: "arena_ok a"
  shows "\<exists>ko vo. x \<noteq> 0 \<and> nodes a x = None \<and> keys a ko = None \<and> vals a vo = None
     \<and> arena_ok a'
     \<and> nodes a' = (nodes a)(x \<mapsto> \<lparr>nvalue = encodeValue vo (EncodedSize v), keyOffset = ko,
            keySize = of_nat (length (UserKey key) + 8), nheight = of_nat h,
            tower = replicate h 0\<rparr>)
     \<and> keys a' = (keys a)(ko \<mapsto> key) \<and> vals a' = (vals a)(vo \<mapsto> v)"
proof -
  from nn obtain a1 where 1: "putNode a h = Inr (x, a1)"
    by (auto simp: newNode_def getNode_def split: sum.splits)
  from putNode_effect[OF 1 ok] have e1: "nodes a1 = (nodes a)(x \<mapsto> zeroNode h)"
    "keys a1 = keys a" "vals a1 = vals a" "nodes a x = None" "x \<noteq> 0" "arena_ok a1" by auto
  from nn 1 obtain ko a2 where 2: "putKey a1 key = Inr (ko, a2)"
    by (auto simp: newNode_def getNode_def split: sum.splits)
  from putKey_effect[OF 2 e1(6)] have e2: "nodes a2 = nodes a1" "keys a2 = (keys a1)(ko \<mapsto> key)"
    "vals a2 = vals a1" "keys a1 ko = None" "arena_ok a2" by auto
  from nn 1 2 obtain vo a3 where 3: "putVal a2 v = Inr (vo, a3)"
    by (auto simp: newNode_def getNode_def split: sum.splits)
  from putVal_effect[OF 3 e2(5)] have e3: "nodes a3 = nodes a2" "keys a3 = keys a2"
    "vals a3 = (vals a2)(vo \<mapsto> v)" "vals a2 vo = None" "arena_ok a3" by auto
  have d: "deref a3 x = Inr (zeroNode h)" using e1 e2 e3 by (simp add: deref_def)
  from nn 1 2 3 d have a': "a' = a3\<lparr>nodes := (nodes a3)(x \<mapsto>
       (zeroNode h)\<lparr>keyOffset := ko, keySize := of_nat (length (UserKey key) + 8),
          nheight := of_nat h, nvalue := encodeValue vo (EncodedSize v)\<rparr>)\<rparr>"
    by (simp add: newNode_def getNode_def)
  have ok': "arena_ok a'" using e3(5) e1 e2 e3 a' by (auto simp: arena_ok_def)
  show ?thesis
    using e1 e2 e3 a' ok' by (intro exI[of _ ko] exI[of _ vo]) (simp add: zeroNode_def)
qed

lemma newNode_error:
  assumes "newNode a key v h = Inl e" "arena_ok a"
  shows "e = OutOfArena"
proof (cases "putNode a h")
  case (Inl e1) with assms show ?thesis by (auto simp: newNode_def dest: putNode_error)
next
  case (Inr r1)
  obtain x a1 where r1: "r1 = (x, a1)" by (cases r1)
  from putNode_effect[OF Inr[unfolded r1] assms(2)] have e1:
    "nodes a1 = (nodes a)(x \<mapsto> zeroNode h)" "x \<noteq> 0" "arena_ok a1" by auto
  show ?thesis
  proof (cases "putKey a1 key")
    case (Inl e2) with assms Inr r1 show ?thesis by (auto simp: newNode_def dest: putKey_error)
  next
    case (Inr r2)
    obtain ko a2 where r2: "r2 = (ko, a2)" by (cases r2)
    from putKey_effect[OF Inr[unfolded r2] e1(3)] have e2: "nodes a2 = nodes a1" "arena_ok a2"
      by auto
    show ?thesis
    proof (cases "putVal a2 v")
      case (Inl e3)
      with assms \<open>putNode a h = Inr r1\<close> r1 Inr r2 show ?thesis
        by (auto simp: newNode_def dest: putVal_error)
    next
      case r3: (Inr r3)
      obtain vo a3 where r3': "r3 = (vo, a3)" by (cases r3)
      from putVal_effect[OF r3[unfolded r3'] e2(2)] have e3: "nodes a3 = nodes a2" by auto
      have "deref a3 x = Inr (zeroNode h)" using e1 e2 e3 by (simp add: deref_def)
      with assms \<open>putNode a h = Inr r1\<close> r1 Inr r2 r3 r3' show ?thesis
        by (simp add: newNode_def getNode_def)
    qed
  qed
qed

lemma newNode_effect:
  assumes nn: "newNode a key v h = Inr (x, a')" and ok: "arena_ok a"
  shows "x \<noteq> 0 \<and> nodes a x = None \<and> arena_ok a'
     \<and> (\<forall>p l. p \<noteq> x \<longrightarrow> getNextOffset a' p l = getNextOffset a p l)
     \<and> (\<forall>l. getNextOffset a' x l = (if l < h then Inr 0 else Inl IndexOutOfRange))
     \<and> node_key a' x = Inr key \<and> readValue a' x = Inr v
     \<and> (\<forall>p k. node_key a p = Inr k \<longrightarrow> node_key a' p = Inr k)
     \<and> (\<forall>p w. readValue a p = Inr w \<longrightarrow> readValue a' p = Inr w)
     \<and> (\<forall>p. p \<noteq> x \<longrightarrow> nodes a' p = nodes a p)"
proof -
  from newNode_parts[OF nn ok] obtain ko vo where p: "x \<noteq> 0" "nodes a x = None"
    "keys a ko = None" "vals a vo = None" "arena_ok a'"
    "nodes a' = (nodes a)(x \<mapsto> \<lparr>nvalue = encodeValue vo (EncodedSize v), keyOffset = ko,
            keySize = of_nat (length (UserKey key) + 8), nheight = of_nat h,
            tower = replicate h 0\<rparr>)"
    "keys a' = (keys a)(ko \<mapsto> key)" "vals a' = (vals a)(vo \<mapsto> v)" by blast
  have 1: "\<forall>p l. p \<noteq> x \<longrightarrow> getNextOffset a' p l = getNextOffset a p l"
    using p by (simp add: getNextOffset_def deref_def)
  have 2: "\<forall>l. getNextOffset a' x l = (if l < h then Inr 0 else Inl IndexOutOfRange)"
    using p by (simp add: getNextOffset_def deref_def)
  have 3: "node_key a' x = Inr key"
    using p by (simp add: node_key_def deref_def getKey_def)
  have 4: "readValue a' x = Inr v"
    using p by (simp add: readValue_def getValueOffset_def deref_def getVal_def decode_encode)
  have 5: "\<forall>p k. node_key a p = Inr k \<longrightarrow> node_key a' p = Inr k"
    using p by (auto simp: node_key_def deref_def getKey_def split: if_splits option.splits)
  have 6: "\<forall>p w. readValue a p = Inr w \<longrightarrow> readValue a' p = Inr w"
    using p by (auto simp: readValue_def getValueOffset_def deref_def getVal_def
        split: if_splits option.splits prod.splits)
  from p 1 2 3 4 5 6 show ?thesis by simp
qed

lemma setValue_error:
  assumes "setValue a n v = Inl e" "arena_ok a" "n \<noteq> 0" "nodes a n \<noteq> None"
  shows "e = OutOfArena"
proof (cases "putVal a v")
  case (Inl e1) with assms show ?thesis by (auto simp: setValue_def dest: putVal_error)
next
  case (Inr r)
  obtain vo a1 where r: "r = (vo, a1)" by (cases r)
  from putVal_effect[OF Inr[unfolded r] assms(2)] have "nodes a1 = nodes a" by simp
  with assms Inr r show ?thesis by (auto simp: setValue_def deref_def)
qed

lemma setValue_effect:
  assumes sv: "setValue a n v = Inr a'" and ok: "arena_ok a"
  shows "arena_ok a'
     \<and> (\<forall>p l. getNextOffset a' p l = getNextOffset a p l)
     \<and> (\<forall>p. node_key a' p = node_key a p)
     \<and> readValue a' n = Inr v
     \<and> (\<forall>p w. p \<noteq> n \<longrightarrow> readValue a p = Inr w \<longrightarrow> readValue a' p = Inr w)
     \<and> (\<forall>p. nodes a' p = None \<longleftrightarrow> nodes a p = None)"
proof -
  from sv obtain vo a1 where 1: "putVal a v = Inr (vo, a1)"
    by (auto simp: setValue_def split: sum.splits)
  from putVal_effect[OF 1 ok] have e1: "nodes a1 = nodes a" "keys a1 = keys a"
    "vals a1 = (vals a)(vo \<mapsto> v)" "vals a vo = None" "arena_ok a1" by auto
  from sv 1 obtain nd where nd: "deref a1 n = Inr nd"
    and a': "a' = a1\<lparr>nodes := (nodes a1)(n \<mapsto> nd\<lparr>nvalue := encodeValue vo (EncodedSize v)\<rparr>)\<rparr>"
    by (auto simp: setValue_def split: sum.splits)
  from nd e1 have n: "n \<noteq> 0" "nodes a n = Some nd"
    by (auto simp: deref_def split: if_splits option.splits)
  have ok': "arena_ok a'" using e1 a' n by (auto simp: arena_ok_def)
  have 1: "\<forall>p l. getNextOffset a' p l = getNextOffset a p l"
    using e1 a' n by (simp add: getNextOffset_def deref_def)
  have 2: "\<forall>p. node_key a' p = node_key a p"
    using e1 a' n by (auto simp: node_key_def deref_def getKey_def split: option.splits)
  have 3: "readValue a' n = Inr v"
    using e1 a' n by (simp add: readValue_def getValueOffset_def deref_def getVal_def decode_encode)
  have 4: "\<forall>p w. p \<noteq> n \<longrightarrow> readValue a p = Inr w \<longrightarrow> readValue a' p = Inr w"
    using e1 a' n by (auto simp: readValue_def getValueOffset_def deref_def getVal_def
        split: if_splits option.splits prod.splits)
  have 5: "\<forall>p. nodes a' p = None \<longleftrightarrow> nodes a p = None"
    using e1 a' n by auto
  from ok' 1 2 3 4 5 show ?thesis by simp
qed

lemma storeAndCas_effect:
  assumes x: "getNextOffset a x i = Inr y" and b: "getNextOffset a b i = Inr (hnext h i)"
      and bx: "b \<noteq> x" and hp: "hprev h i = b" and ok: "arena_ok a"
  shows "\<exists>a'. storeAndCas a x i h = Inr (True, a')
     \<and> arena_ok a'
     \<and> getNextOffset a' x i = Inr (hnext h i)
     \<and> getNextOffset a' b i = Inr x
     \<and> (\<forall>p l. (p, l) \<noteq> (x, i) \<longrightarrow> (p, l) \<noteq> (b, i) \<longrightarrow> getNextOffset a' p l = getNextOffset a p l)
     \<and> (\<forall>p. node_key a' p = node_key a p)
     \<and> (\<forall>p. readValue a' p = readValue a p)
     \<and> (\<forall>p. nodes a' p = None \<longleftrightarrow> nodes a p = None)"
proof -
  from x obtain ndx where ndx: "x \<noteq> 0" "nodes a x = Some ndx" "i < length (tower ndx)"
    by (auto simp: getNextOffset_def deref_def split: if_splits option.splits)
  from b obtain ndb where ndb: "b \<noteq> 0" "nodes a b = Some ndb" "i < length (tower ndb)"
    "tower ndb ! i = hnext h i"
    by (auto simp: getNextOffset_def deref_def split: if_splits option.splits)
  define a1 where "a1 = a\<lparr>nodes := (nodes a)(x \<mapsto> ndx\<lparr>tower := (tower ndx)[i := hnext h i]\<rparr>)\<rparr>"
  define a' where "a' = a1\<lparr>nodes := (nodes a1)(b \<mapsto> ndb\<lparr>tower := (tower ndb)[i := x]\<rparr>)\<rparr>"
  have r: "storeAndCas a x i h = Inr (True, a')"
    using ndx ndb bx hp
    by (simp add: storeAndCas_def casNextOffset_def deref_def getNodeOffset_def Let_def a1_def a'_def)
  have ok': "arena_ok a'" using ok ndx ndb by (auto simp: arena_ok_def a'_def a1_def)
  have 1: "getNextOffset a' x i = Inr (hnext h i)"
    using ndx ndb bx by (simp add: getNextOffset_def deref_def a'_def a1_def)
  have 2: "getNextOffset a' b i = Inr x"
    using ndx ndb bx by (simp add: getNextOffset_def deref_def a'_def a1_def)
  have 3: "\<forall>p l. (p, l) \<noteq> (x, i) \<longrightarrow> (p, l) \<noteq> (b, i) \<longrightarrow> getNextOffset a' p l = getNextOffset a p l"
    using ndx ndb bx by (auto simp: getNextOffset_def deref_def a'_def a1_def)
  have 4: "\<forall>p. node_key a' p = node_key a p"
    using ndx ndb bx
    by (auto simp: node_key_def deref_def getKey_def a'_def a1_def split: option.splits)
  have 5: "\<forall>p. readValue a' p = readValue a p"
    using ndx ndb bx
    by (auto simp: readValue_def getValueOffset_def deref_def getVal_def a'_def a1_def
        split: option.splits prod.splits)
  have 6: "\<forall>p. nodes a' p = None \<longleftrightarrow> nodes a p = None"
    using ndx ndb by (auto simp: a'_def a1_def)
  from r ok' 1 2 3 4 5 6 show ?thesis by blast
qed

lemma arena_ok_new: "arena_ok (newArena n)"
  by (simp add: arena_ok_def newArena_def)

lemma newSkiplist_inv:
  assumes "newSkiplist n = Inr s"
  shows "skl_inv s (\<lambda>_. []) \<and> height s = 1"
proof -
  from assms obtain x a where nn: "newNode (newArena n) emptyKey emptyValue maxHeight = Inr (x, a)"
    and s: "s = \<lparr>height = 1, head = x, arena = Some a\<rparr>"
    by (auto simp: newSkiplist_def split: sum.splits)
  from newNode_effect[OF nn arena_ok_new]
  have e: "arena_ok a" "\<forall>l. getNextOffset a x l = (if l < maxHeight then Inr 0 else Inl IndexOutOfRange)"
    by auto
  have "\<forall>l<maxHeight. level_ok s a l []"
    using e s by (simp add: level_ok_def ascending_def)
  then show ?thesis using e s by (simp add: skl_inv_def maxHeight_def)
qed

lemma newSkiplist_error: "newSkiplist n = Inl e \<Longrightarrow> e = OutOfArena"
  by (auto simp: newSkiplist_def split: sum.splits dest: newNode_error[OF _ arena_ok_new])

lemma nodes_split: "nodesBefore a key xs @ nodesFrom a key xs = xs"
  by (simp add: nodesBefore_def nodesFrom_def)

lemma nodesBefore_less: "p \<in> set (nodesBefore a key xs) \<Longrightarrow> keyLess (kof a p) key"
  by (auto simp: nodesBefore_def dest: set_takeWhileD)

lemma nodesBefore_sub: "set (nodesBefore a key xs) \<subseteq> set xs"
  by (auto simp: nodesBefore_def dest: set_takeWhileD)

lemma nodesFrom_sub: "set (nodesFrom a key xs) \<subseteq> set xs"
  by (auto simp: nodesFrom_def dest: set_dropWhileD)

lemma nodesFrom_hd: "nodesFrom a key xs = q # qs \<Longrightarrow> \<not> keyLess (kof a q) key"
  using hd_dropWhile[of "\<lambda>q. keyLess (kof a q) key" xs] by (simp add: nodesFrom_def)

lemma befOf_cases:
  "befOf s a key xs = head s \<or>
     (befOf s a key xs \<in> set xs \<and> keyLess (kof a (befOf s a key xs)) key)"
proof (cases "nodesBefore a key xs = []")
  case True then show ?thesis by (simp add: befOf_def)
next
  case False
  then have m: "last (nodesBefore a key xs) \<in> set (nodesBefore a key xs)" by simp
  have 1: "keyLess (kof a (last (nodesBefore a key xs))) key"
    by (rule nodesBefore_less[OF m])
  have 2: "last (nodesBefore a key xs) \<in> set xs"
    using m nodesBefore_sub[of a key xs] by blast
  from False 1 2 show ?thesis by (simp add: befOf_def)
qed

lemma befOf_chain:
  assumes "chain a l (head s) xs"
  shows "chain a l (befOf s a key xs) (nodesFrom a key xs)"
proof -
  from assms have "chain a l (head s) (nodesBefore a key xs @ nodesFrom a key xs)"
    by (simp add: nodes_split)
  then show ?thesis unfolding befOf_def by (rule chain_last)
qed

lemma befOf_next:
  assumes "chain a l (head s) xs"
  shows "getNextOffset a (befOf s a key xs) l = Inr (aftOf a key xs)"
  using befOf_chain[OF assms, of key] by (cases "nodesFrom a key xs") (auto simp: aftOf_def)

lemma aftOf_mem:
  assumes "aftOf a key xs \<noteq> 0"
  shows "aftOf a key xs \<in> set xs \<and> \<not> keyLess (kof a (aftOf a key xs)) key"
proof (cases "nodesFrom a key xs")
  case Nil with assms show ?thesis by (simp add: aftOf_def)
next
  case (Cons q qs)
  then have "q \<in> set xs" using nodesFrom_sub[of a key xs] by auto
  with Cons nodesFrom_hd[OF Cons] show ?thesis by (simp add: aftOf_def)
qed

lemma matchOf_aft:
  assumes "matchOf a key xs" "0 \<notin> set xs"
  shows "aftOf a key xs \<in> set xs \<and> kof a (aftOf a key xs) = key \<and> aftOf a key xs \<noteq> 0"
proof (cases "nodesFrom a key xs")
  case Nil with assms show ?thesis by (simp add: matchOf_def)
next
  case (Cons q qs)
  then have "q \<in> set xs" using nodesFrom_sub[of a key xs] by auto
  with Cons assms show ?thesis by (auto simp: aftOf_def matchOf_def)
qed

lemma nodesFrom_greater:
  assumes asc: "ascending a xs" and nm: "\<not> matchOf a key xs"
  shows "\<forall>q\<in>set (nodesFrom a key xs). keyLess key (kof a q)"
proof (cases "nodesFrom a key xs")
  case Nil then show ?thesis by simp
next
  case (Cons q qs)
  from nodesFrom_hd[OF Cons] nm Cons have q: "keyLess key (kof a q)"
    using keyLess_total[of key "kof a q"] by (auto simp: matchOf_def)
  from asc have "ascending a (nodesBefore a key xs @ nodesFrom a key xs)"
    by (simp add: nodes_split)
  with Cons have "\<forall>r\<in>set qs. keyLess (kof a q) (kof a r)"
    by (auto simp: ascending_append ascending_Cons)
  with q Cons show ?thesis by (auto intro: keyLess_trans)
qed

lemma split_at_key:
  assumes asc: "ascending a (A @ q # B)" and k: "keyLess (kof a q) key \<or> kof a q = key"
  shows "\<forall>p\<in>set A. keyLess (kof a p) key"
  using asc k by (auto simp: ascending_append ascending_Cons intro: keyLess_trans)

lemma nodes_present:
  assumes asc: "ascending a xs" and q: "q \<in> set xs" and k: "kof a q = key"
  shows "matchOf a key xs \<and> aftOf a key xs = q"
proof -
  from q obtain A B where xs: "xs = A @ q # B" by (auto dest: split_list)
  have A: "\<forall>p\<in>set A. keyLess (kof a p) key"
    using split_at_key[of a A q B key] asc xs k by simp
  have "nodesFrom a key xs = q # B"
    unfolding nodesFrom_def xs using A k
    by (simp add: dropWhile_append2 keyLess_irrefl)
  then show ?thesis using k by (simp add: matchOf_def aftOf_def)
qed

lemma level_splice:
  assumes inv: "skl_inv s Ls" and a: "arena s = Some a" and l: "l < maxHeight"
      and p: "p = head s \<or> (p \<in> set (Ls l) \<and> keyLess (kof a p) key)"
  shows "findSpliceForLevel s key p l =
           Some (Inr (befOf s a key (Ls l), aftOf a key (Ls l), matchOf a key (Ls l)))"
proof -
  have lv: "level_ok s a l (Ls l)" by (rule inv_level[OF inv a l])
  then have c: "chain a l (head s) (Ls l)" and st: "\<forall>q\<in>set (Ls l). stored a q"
    and asc: "ascending a (Ls l)" and hd: "head s \<notin> set (Ls l)"
    by (auto simp: level_ok_def)
  show ?thesis
  proof (cases "p \<in> set (Ls l)")
    case False
    with p have "p = head s" by simp
    with findSplice_chain[OF a c st, of key] show ?thesis
      by (simp add: befOf_def aftOf_def matchOf_def nodesBefore_def nodesFrom_def)
  next
    case True
    with p hd have kp: "keyLess (kof a p) key" by auto
    from chain_mem_split[OF c True] obtain pre suf
      where xs: "Ls l = pre @ p # suf" and cp: "chain a l p suf" by blast
    have pre: "\<forall>q\<in>set (pre @ [p]). keyLess (kof a q) key"
      using split_at_key[of a pre p suf key] asc xs kp by auto
    have t: "nodesBefore a key (Ls l) = (pre @ [p]) @ takeWhile (\<lambda>q. keyLess (kof a q) key) suf"
      using pre unfolding nodesBefore_def xs
      by (subst takeWhile_append2[symmetric, of "pre @ [p]"]) auto
    have d: "nodesFrom a key (Ls l) = dropWhile (\<lambda>q. keyLess (kof a q) key) suf"
      using pre unfolding nodesFrom_def xs
      by (subst dropWhile_append2[symmetric, of "pre @ [p]"]) auto
    have st': "\<forall>q\<in>set suf. stored a q" using st xs by simp
    from findSplice_chain[OF a cp st', of key] show ?thesis
      by (simp add: befOf_def aftOf_def matchOf_def t d)
  qed
qed

lemma inv_nonzero:
  assumes "skl_inv s Ls" "arena s = Some a" "l < maxHeight"
  shows "0 \<notin> set (Ls l)"
  using inv_level[OF assms] chain_nonzero[of a l "head s" "Ls l"] by (auto simp: level_ok_def)

lemma inv_stored:
  assumes "skl_inv s Ls" "arena s = Some a" "l < maxHeight" "p \<in> set (Ls l)"
  shows "stored a p"
  using inv_level[OF assms(1-3)] assms(4) by (auto simp: level_ok_def)

lemma stored_alloc: "stored a p \<Longrightarrow> p \<noteq> 0 \<and> nodes a p \<noteq> None"
  using stored_key[of a p] node_key_alloc[of a p] by auto

lemma spliceLoop_levels:
  assumes inv: "skl_inv s Ls" and a: "arena s = Some a"
  shows "n \<le> maxHeight
     \<Longrightarrow> hprev h n = head s
           \<or> (n < maxHeight \<and> hprev h n \<in> set (Ls n) \<and> keyLess (kof a (hprev h n)) key)
     \<Longrightarrow> (spliceLoop s key v h n = Some (Inl OutOfArena) \<and> (\<exists>j<n. matchOf a key (Ls j)))
         \<or> (\<exists>h'. spliceLoop s key v h n = Some (Inr (NoMatch h'))
               \<and> (\<forall>j<n. hprev h' j = befOf s a key (Ls j) \<and> hnext h' j = aftOf a key (Ls j)
                          \<and> \<not> matchOf a key (Ls j))
               \<and> (\<forall>j\<ge>n. hprev h' j = hprev h j \<and> hnext h' j = hnext h j))
         \<or> (\<exists>h' a' j. spliceLoop s key v h n = Some (Inr (InPlace (s\<lparr>arena := Some a'\<rparr>) h'))
               \<and> j < n \<and> matchOf a key (Ls j)
               \<and> setValue a (aftOf a key (Ls j)) v = Inr a')"
proof (induction n arbitrary: h)
  case 0
  then show ?case by simp
next
  case (Suc i)
  have i: "i < maxHeight" using Suc.prems(1) by simp
  have ib: "inBounds (i + 1)" using Suc.prems(1) by (simp add: inBounds_def)
  define p where "p = hprev h (Suc i)"
  have pc: "p = head s \<or> (p \<in> set (Ls i) \<and> keyLess (kof a p) key)"
    using Suc.prems(2) inv_nest[OF inv, of i] by (auto simp: p_def)
  define b where "b = befOf s a key (Ls i)"
  define n' where "n' = aftOf a key (Ls i)"
  define m where "m = matchOf a key (Ls i)"
  have sp: "findSpliceForLevel s key p i = Some (Inr (b, n', m))"
    unfolding b_def n'_def m_def by (rule level_splice[OF inv a i pc])
  define h1 where "h1 = h\<lparr>hprev := (hprev h)(i := b), hnext := (hnext h)(i := n')\<rparr>"
  have step: "spliceLoop s key v h (Suc i) =
     (if m then
        (case setValue a n' v of
           Inl e \<Rightarrow> Some (Inl e)
         | Inr a' \<Rightarrow> Some (Inr (InPlace (s\<lparr>arena := Some a'\<rparr>) (copyDown h1 i))))
      else spliceLoop s key v h1 i)"
    using ib sp unfolding p_def h1_def by (simp add: withArena_Some[OF a] Let_def)
  show ?case
  proof (cases m)
    case True
    from matchOf_aft[OF True[unfolded m_def] inv_nonzero[OF inv a i]]
    have am: "n' \<in> set (Ls i)" "n' \<noteq> 0" by (auto simp: n'_def)
    from stored_alloc[OF inv_stored[OF inv a i am(1)]] have al: "nodes a n' \<noteq> None" by simp
    show ?thesis
    proof (cases "setValue a n' v")
      case (Inl e)
      from setValue_error[OF Inl inv_arena_ok[OF inv a] am(2) al] Inl True
      show ?thesis unfolding step by (auto simp: m_def)
    next
      case (Inr a')
      with True show ?thesis unfolding step n'_def m_def by auto
    qed
  next
    case False
    have pre: "hprev h1 i = head s
       \<or> (i < maxHeight \<and> hprev h1 i \<in> set (Ls i) \<and> keyLess (kof a (hprev h1 i)) key)"
      using befOf_cases[of s a key "Ls i"] i by (auto simp: h1_def b_def)
    from Suc.IH[of h1, OF _ pre] i
    consider (err) "spliceLoop s key v h1 i = Some (Inl OutOfArena)" "\<exists>j<i. matchOf a key (Ls j)"
      | (nom) h' where "spliceLoop s key v h1 i = Some (Inr (NoMatch h'))"
          "\<forall>j<i. hprev h' j = befOf s a key (Ls j) \<and> hnext h' j = aftOf a key (Ls j)
                   \<and> \<not> matchOf a key (Ls j)"
          "\<forall>j\<ge>i. hprev h' j = hprev h1 j \<and> hnext h' j = hnext h1 j"
      | (inp) h' a' j where "spliceLoop s key v h1 i = Some (Inr (InPlace (s\<lparr>arena := Some a'\<rparr>) h'))"
          "j < i" "matchOf a key (Ls j)" "setValue a (aftOf a key (Ls j)) v = Inr a'"
      by auto
    then show ?thesis
    proof cases
      case err
      then have "\<exists>j<Suc i. matchOf a key (Ls j)" using less_Suc_eq by blast
      with err(1) False show ?thesis unfolding step by simp
    next
      case nom
      have 1: "\<forall>j<Suc i. hprev h' j = befOf s a key (Ls j) \<and> hnext h' j = aftOf a key (Ls j)
                   \<and> \<not> matchOf a key (Ls j)"
        using nom(2,3) False by (auto simp: less_Suc_eq h1_def b_def n'_def m_def)
      have 2: "\<forall>j\<ge>Suc i. hprev h' j = hprev h j \<and> hnext h' j = hnext h j"
        using nom(3) by (auto simp: h1_def)
      from nom(1) False 1 2 show ?thesis unfolding step by simp
    next
      case inp
      then have "j < Suc i" by simp
      with inp have "\<exists>h' a' j. spliceLoop s key v h1 i = Some (Inr (InPlace (s\<lparr>arena := Some a'\<rparr>) h'))
               \<and> j < Suc i \<and> matchOf a key (Ls j)
               \<and> setValue a (aftOf a key (Ls j)) v = Inr a'"
        by blast
      with False show ?thesis unfolding step by simp
    qed
  qed
qed

lemma chain_transfer:
  "chain a l p xs \<Longrightarrow> \<forall>q r. getNextOffset a q l = Inr r \<longrightarrow> getNextOffset a' q l = Inr r
     \<Longrightarrow> chain a' l p xs"
  by (induction xs arbitrary: p) auto

lemma ascending_cong:
  "\<forall>p\<in>set xs. kof a' p = kof a p \<Longrightarrow> ascending a' xs = ascending a xs"
  by (induction xs) (auto simp: ascending_Cons ascending_def)

lemma inv_transfer:
  assumes inv: "skl_inv s Ls" and a: "arena s = Some a" and a': "arena s' = Some a'"
      and hd: "head s' = head s" and h: "1 \<le> height s'" "height s' \<le> maxHeight"
      and ok: "arena_ok a'"
      and nx: "\<forall>l q r. getNextOffset a q l = Inr r \<longrightarrow> getNextOffset a' q l = Inr r"
      and st: "\<forall>p. stored a p \<longrightarrow> stored a' p \<and> kof a' p = kof a p"
  shows "skl_inv s' Ls"
proof -
  have "level_ok s' a' l (Ls l)" if l: "l < maxHeight" for l
  proof -
    have lv: "level_ok s a l (Ls l)" by (rule inv_level[OF inv a l])
    then have sto: "\<forall>p\<in>set (Ls l). stored a p" by (simp add: level_ok_def)
    have 1: "chain a' l (head s') (Ls l)"
      using lv nx hd by (auto simp: level_ok_def intro: chain_transfer)
    have 2: "ascending a' (Ls l)"
      using lv sto st ascending_cong[of "Ls l" a' a] by (auto simp: level_ok_def)
    from 1 2 lv sto st hd show ?thesis by (auto simp: level_ok_def)
  qed
  then show ?thesis using inv a' h ok by (auto simp: skl_inv_def split: option.splits)
qed

lemma entries_cong:
  "\<forall>p\<in>set xs. kof a' p = kof a p \<and> vof a' p = vof a p \<Longrightarrow> entries a' xs = entries a xs"
  by (simp add: entries_def)

lemma sortedKeys_entries: "sortedKeys (entries a xs) = ascending a xs"
  by (simp add: sortedKeys_def entries_def ascending_def sorted_wrt_map)

lemma upsert_present:
  "ascending a xs \<Longrightarrow> n \<in> set xs \<Longrightarrow> kof a n = key
     \<Longrightarrow> \<forall>p\<in>set xs. kof a' p = kof a p \<and> vof a' p = (if p = n then v else vof a p)
     \<Longrightarrow> entries a' xs = upsert key v (entries a xs)"
proof (induction xs)
  case Nil then show ?case by simp
next
  case (Cons x xs)
  show ?case
  proof (cases "x = n")
    case True
    then have "n \<notin> set xs" using Cons.prems(1) by (auto dest: ascending_distinct)
    then have "entries a' xs = entries a xs" using Cons.prems(4) by (intro entries_cong) auto
    with True Cons.prems(3,4) show ?thesis by (simp add: entries_def)
  next
    case False
    with Cons.prems have n: "n \<in> set xs" by simp
    with Cons.prems(1,3) have "keyLess (kof a x) key" by (auto simp: ascending_Cons)
    then have "key \<noteq> kof a x" "\<not> keyLess key (kof a x)"
      by (auto dest: keyLess_not_eq keyLess_asym)
    moreover have "entries a' xs = upsert key v (entries a xs)"
      using Cons.prems n by (intro Cons.IH) (auto simp: ascending_Cons)
    ultimately show ?thesis using Cons.prems(4) False by (simp add: entries_def)
  qed
qed

lemma upsert_absent:
  "\<forall>p\<in>set A. keyLess (kof a p) key \<Longrightarrow> \<forall>q\<in>set B. keyLess key (kof a q)
     \<Longrightarrow> kof a' x = key \<Longrightarrow> vof a' x = v
     \<Longrightarrow> \<forall>p\<in>set (A @ B). kof a' p = kof a p \<and> vof a' p = vof a p
     \<Longrightarrow> entries a' (A @ x # B) = upsert key v (entries a (A @ B))"
proof (induction A)
  case Nil
  have "entries a' B = entries a B" using Nil.prems(5) by (intro entries_cong) auto
  with Nil show ?case
    by (cases B) (auto simp: entries_def dest: keyLess_not_eq)
next
  case (Cons y A)
  then have "keyLess (kof a y) key" by simp
  then have "key \<noteq> kof a y" "\<not> keyLess key (kof a y)"
    by (auto dest: keyLess_not_eq keyLess_asym)
  moreover have "entries a' (A @ x # B) = upsert key v (entries a (A @ B))"
    using Cons.prems by (intro Cons.IH) auto
  ultimately show ?case using Cons.prems(5) by (simp add: entries_def)
qed

lemma chain_insert:
  "chain a l p (xs @ ys) \<Longrightarrow> distinct (p # xs @ ys) \<Longrightarrow> x \<notin> set (p # xs @ ys) \<Longrightarrow> x \<noteq> 0
     \<Longrightarrow> getNextOffset a' (last (p # xs)) l = Inr x
     \<Longrightarrow> getNextOffset a' x l = Inr (case ys of [] \<Rightarrow> 0 | q # _ \<Rightarrow> q)
     \<Longrightarrow> \<forall>q. q \<noteq> last (p # xs) \<longrightarrow> q \<noteq> x \<longrightarrow> getNextOffset a' q l = getNextOffset a q l
     \<Longrightarrow> chain a' l p (xs @ x # ys)"
proof (induction xs arbitrary: p)
  case Nil
  have "chain a' l x ys"
  proof (cases ys)
    case Nil with Nil.prems show ?thesis by simp
  next
    case (Cons q qs)
    with Nil.prems have c: "chain a l q qs" and q0: "q \<noteq> 0" by auto
    have "chain a' l q qs"
      using Nil.prems Cons by (intro chain_frame[OF c]) auto
    with Nil.prems Cons q0 show ?thesis by simp
  qed
  with Nil.prems show ?case by simp
next
  case (Cons y xs)
  from Cons.prems(1) have y: "y \<noteq> 0" "getNextOffset a p l = Inr y" "chain a l y (xs @ ys)"
    by auto
  have "last (y # xs) \<in> set (y # xs)" by simp
  then have "p \<noteq> last (p # y # xs)" using Cons.prems(2) by auto
  moreover have "p \<noteq> x" using Cons.prems(3) by auto
  ultimately have "getNextOffset a' p l = Inr y" using Cons.prems(7) y(2) by simp
  moreover have "chain a' l y (xs @ x # ys)"
    using Cons.prems y(3) by (intro Cons.IH) auto
  ultimately show ?case using y(1) by simp
qed

lemma befOf_chain2:
  assumes "chain a' l (head s) xs"
  shows "chain a' l (befOf s a key xs) (nodesFrom a key xs)"
proof -
  from assms have "chain a' l (head s) (nodesBefore a key xs @ nodesFrom a key xs)"
    by (simp add: nodes_split)
  then show ?thesis unfolding befOf_def by (rule chain_last)
qed

lemma befOf_next2:
  assumes "chain a' l (head s) xs"
  shows "getNextOffset a' (befOf s a key xs) l = Inr (aftOf a key xs)"
  using befOf_chain2[OF assms, of a key] by (cases "nodesFrom a key xs") (auto simp: aftOf_def)

lemma linkLevel_step:
  assumes "arena si = Some ai" "inBounds i" "storeAndCas ai x i h = Inr (True, a')"
  shows "linkLevel si key x i h sv = Some (Inr (si\<lparr>arena := Some a'\<rparr>, h, sv))"
  using assms by (subst linkLevel.simps) (simp add: withArena_def)

lemma withNode_same: "l \<noteq> i \<Longrightarrow> withNode a key x (Suc i) Ls l = withNode a key x i Ls l"
  by (auto simp: withNode_def)

lemma linkLoop_levels:
  assumes inv: "skl_inv s Ls" and a: "arena s = Some a"
      and x: "x \<noteq> 0" "nodes a x = None"
      and hp: "\<forall>l<ht. hprev h l = befOf s a key (Ls l) \<and> hnext h l = aftOf a key (Ls l)"
      and ht: "ht \<le> maxHeight"
  shows "k = ht - i \<Longrightarrow> i \<le> ht \<Longrightarrow> arena si = Some ai \<Longrightarrow> head si = head s
     \<Longrightarrow> height si = height s
     \<Longrightarrow> \<forall>l<maxHeight. chain ai l (head s) (withNode a key x i Ls l)
     \<Longrightarrow> \<forall>l. i \<le> l \<longrightarrow> l < ht \<longrightarrow> getNextOffset ai x l = Inr 0
     \<Longrightarrow> arena_ok ai
     \<Longrightarrow> \<exists>sf af. linkLoop si key x ht i h sv = Some (Inr (sf, h, sv))
           \<and> arena sf = Some af \<and> head sf = head s \<and> height sf = height s \<and> arena_ok af
           \<and> (\<forall>l<maxHeight. chain af l (head s) (withNode a key x ht Ls l))
           \<and> (\<forall>p. node_key af p = node_key ai p)
           \<and> (\<forall>p. readValue af p = readValue ai p)
           \<and> (\<forall>p. nodes af p = None \<longleftrightarrow> nodes ai p = None)"
proof (induction k arbitrary: i si ai)
  case 0
  then have "i = ht" by simp
  with "0.prems" show ?case
    by (subst linkLoop.simps) simp
next
  case (Suc k)
  then have i: "i < ht" "i < maxHeight" using ht by auto
  then have ib: "inBounds i" by (simp add: inBounds_def)
  have lv: "level_ok s a i (Ls i)" by (rule inv_level[OF inv a i(2)])
  define b where "b = befOf s a key (Ls i)"
  have ci: "chain ai i (head s) (Ls i)"
    using Suc.prems(6) i by (auto simp: withNode_def)
  have bn: "getNextOffset ai b i = Inr (hnext h i)"
    using befOf_next2[OF ci, of a key] hp i by (simp add: b_def)
  have hb: "hprev h i = b" using hp i by (simp add: b_def)
  have hal: "nodes a (head s) \<noteq> None"
    using lv getNextOffset_alloc[of a "head s" i] by (cases "Ls i") (auto simp: level_ok_def)
  have lal: "\<forall>p\<in>set (Ls i). nodes a p \<noteq> None"
    using lv stored_alloc by (auto simp: level_ok_def)
  have xh: "x \<noteq> head s" using hal x by auto
  have xl: "x \<notin> set (Ls i)" using lal x by auto
  have bx: "b \<noteq> x" using befOf_cases[of s a key "Ls i"] xh xl by (auto simp: b_def)
  have xi: "getNextOffset ai x i = Inr 0" using Suc.prems(7) i by simp
  from storeAndCas_effect[OF xi bn bx hb Suc.prems(8)] obtain a' where
    sc: "storeAndCas ai x i h = Inr (True, a')" and ok': "arena_ok a'"
    and e1: "getNextOffset a' x i = Inr (hnext h i)" and e2: "getNextOffset a' b i = Inr x"
    and e3: "\<forall>p l. (p, l) \<noteq> (x, i) \<longrightarrow> (p, l) \<noteq> (b, i) \<longrightarrow> getNextOffset a' p l = getNextOffset ai p l"
    and e4: "\<forall>p. node_key a' p = node_key ai p" and e5: "\<forall>p. readValue a' p = readValue ai p"
    and e6: "\<forall>p. nodes a' p = None \<longleftrightarrow> nodes ai p = None"
    by blast
  define s' where "s' = si\<lparr>arena := Some a'\<rparr>"
  have ll: "linkLevel si key x i h sv = Some (Inr (s', h, sv))"
    unfolding s'_def by (rule linkLevel_step[OF Suc.prems(3) ib sc])
  have ch: "chain a' l (head s) (withNode a key x (Suc i) Ls l)" if l: "l < maxHeight" for l
  proof (cases "l = i")
    case True
    have d: "distinct (head s # nodesBefore a key (Ls i) @ nodesFrom a key (Ls i))"
      using lv by (auto simp: nodes_split level_ok_def dest: ascending_distinct)
    have nin: "x \<notin> set (head s # nodesBefore a key (Ls i) @ nodesFrom a key (Ls i))"
      using xh xl by (simp add: nodes_split)
    have c0: "chain ai i (head s) (nodesBefore a key (Ls i) @ nodesFrom a key (Ls i))"
      using ci by (simp add: nodes_split)
    have g1: "getNextOffset a' (last (head s # nodesBefore a key (Ls i))) i = Inr x"
      using e2 by (simp add: b_def befOf_def)
    have g2: "getNextOffset a' x i = Inr (case nodesFrom a key (Ls i) of [] \<Rightarrow> 0 | q # _ \<Rightarrow> q)"
      using e1 hp i by (simp add: aftOf_def)
    have g3: "\<forall>q. q \<noteq> last (head s # nodesBefore a key (Ls i)) \<longrightarrow> q \<noteq> x
                \<longrightarrow> getNextOffset a' q i = getNextOffset ai q i"
      using e3 by (simp add: b_def befOf_def)
    have "chain a' i (head s) (nodesBefore a key (Ls i) @ x # nodesFrom a key (Ls i))"
      by (rule chain_insert[OF c0 d nin x(1) g1 g2 g3])
    with True i show ?thesis by (simp add: withNode_def)
  next
    case False
    have c1: "chain ai l (head s) (withNode a key x i Ls l)" using Suc.prems(6) l by simp
    have fr: "\<forall>q\<in>set (head s # withNode a key x i Ls l).
                getNextOffset a' q l = getNextOffset ai q l"
      using e3 False by simp
    have "chain a' l (head s) (withNode a key x i Ls l)"
      by (rule chain_frame[OF c1 fr])
    with False show ?thesis by (simp add: withNode_same)
  qed
  have nx: "\<forall>l. Suc i \<le> l \<longrightarrow> l < ht \<longrightarrow> getNextOffset a' x l = Inr 0"
  proof (intro allI impI)
    fix l assume l: "Suc i \<le> l" "l < ht"
    then have "getNextOffset ai x l = Inr 0" using Suc.prems(7) by simp
    moreover have "getNextOffset a' x l = getNextOffset ai x l" using e3 l by simp
    ultimately show "getNextOffset a' x l = Inr 0" by simp
  qed
  have k: "k = ht - Suc i" using Suc.prems(1) by simp
  have i': "Suc i \<le> ht" using i by simp
  have as': "arena s' = Some a'" by (simp add: s'_def)
  have hs': "head s' = head s" using Suc.prems(4) by (simp add: s'_def)
  have gs': "height s' = height s" using Suc.prems(5) by (simp add: s'_def)
  have ch': "\<forall>l<maxHeight. chain a' l (head s) (withNode a key x (Suc i) Ls l)"
    using ch by simp
  from Suc.IH[OF k i' as' hs' gs' ch' nx ok'] obtain sf af where
    r: "linkLoop s' key x ht (Suc i) h sv = Some (Inr (sf, h, sv))
           \<and> arena sf = Some af \<and> head sf = head s \<and> height sf = height s \<and> arena_ok af
           \<and> (\<forall>l<maxHeight. chain af l (head s) (withNode a key x ht Ls l))
           \<and> (\<forall>p. node_key af p = node_key a' p)
           \<and> (\<forall>p. readValue af p = readValue a' p)
           \<and> (\<forall>p. nodes af p = None \<longleftrightarrow> nodes a' p = None)"
    by blast
  have st: "linkLoop si key x ht i h sv = linkLoop s' key x ht (Suc i) h sv"
    using i ll by (subst linkLoop.simps) simp
  have "linkLoop si key x ht i h sv = Some (Inr (sf, h, sv))
           \<and> arena sf = Some af \<and> head sf = head s \<and> height sf = height s \<and> arena_ok af
           \<and> (\<forall>l<maxHeight. chain af l (head s) (withNode a key x ht Ls l))
           \<and> (\<forall>p. node_key af p = node_key ai p)
           \<and> (\<forall>p. readValue af p = readValue ai p)
           \<and> (\<forall>p. nodes af p = None \<longleftrightarrow> nodes ai p = None)"
    using r st e4 e5 e6 by simp
  then show ?case by blast
qed

text \<open>Unfolding the code on concrete inputs.\<close>

lemmas run_defs = newSkiplist_def newNode_def putNode_def putKey_def putVal_def bump_def
  newArena_def maxHeight_def MaxNodeSize_def nodeAlign_def offsetSize_def emptyKey_def
  emptyValue_def encodedLen_def EncodedSize_def Let_def getNode_def getNodeOffset_def deref_def
  zeroNode_def encodeValue_def decodeValue_def Put_def PutWithHint_def getHeight_def
  randomHeight_def heightIncrease_def calculateRecomputeHeight_def newHint_def inBounds_def
  withArena_def getNext_def getNextOffset_def node_key_def getKey_def getVal_def
  storeAndCas_def casNextOffset_def casHeight_def setValue_def Compare_def
  randomHeight_loop.simps raiseHeight.simps findSpliceForLevel.simps linkLoop.simps
  linkLevel.simps getValueOffset_def readValue_def stored_def kof_def vof_def keyK_def
  keyA_def valueOfByte_def lowTower_def highTower_def arenaOf_def

lemma emptyList_built: "newSkiplist 4096 = Inr emptyList"
  by (simp add: run_defs emptyList_def)

lemma listK3_built: "Put emptyList (keyK 3) (valueOfByte 1) lowTower = Some (Inr listK3)"
  by (simp add: run_defs emptyList_def listK3_def)

lemma listK37_built: "Put listK3 (keyK 7) (valueOfByte 2) highTower = Some (Inr listK37)"
  by (simp add: run_defs listK3_def listK37_def)

text \<open>
  Claim C7. From a node \<open>bef\<close> that is the head or has a key below \<open>key\<close>, on a level whose
  links from \<open>bef\<close> visit the stored nodes \<open>xs\<close> and end at \<open>nil\<close>,
  \<open>findSpliceForLevel\<close> returns \<open>(b, n, m)\<close> where \<open>b\<close> is the head or has a key
  below \<open>key\<close> (and has one when \<open>bef\<close> has), \<open>n\<close> is the successor of \<open>b\<close> on the
  level, \<open>key \<le> n.key\<close> when \<open>n\<close> is not \<open>nil\<close>, and \<open>m\<close> holds exactly when \<open>n\<close> is
  not \<open>nil\<close> and its key compares equal to \<open>key\<close>. The ascending order of the chain is
  not needed for this.
\<close>

theorem findSpliceForLevel_splice:
  assumes a: "arena s = Some a"
      and c: "chain a level bef xs"
      and st: "\<forall>q\<in>set xs. stored a q"
      and b: "bef = head s \<or> Compare key (kof a bef) > 0"
  shows "\<exists>b n m. findSpliceForLevel s key bef level = Some (Inr (b, n, m))
           \<and> (b = head s \<or> Compare key (kof a b) > 0)
           \<and> (Compare key (kof a bef) > 0 \<longrightarrow> Compare key (kof a b) > 0)
           \<and> getNext s b level = Inr n
           \<and> (n \<noteq> 0 \<longrightarrow> Compare key (kof a n) \<le> 0)
           \<and> (m \<longleftrightarrow> n \<noteq> 0 \<and> Compare key (kof a n) = 0)"
proof -
  let ?P = "\<lambda>q. keyLess (kof a q) key"
  define tw where "tw = takeWhile ?P xs"
  define dw where "dw = dropWhile ?P xs"
  define b' where "b' = last (bef # tw)"
  define n' where "n' = (case dw of [] \<Rightarrow> 0 | q # _ \<Rightarrow> q)"
  define m' where "m' = (case dw of [] \<Rightarrow> False | q # _ \<Rightarrow> key = kof a q)"
  have r: "findSpliceForLevel s key bef level = Some (Inr (b', n', m'))"
    unfolding b'_def n'_def m'_def tw_def dw_def by (rule findSplice_chain[OF a c st])
  have "chain a level bef (tw @ dw)" using c by (simp add: tw_def dw_def)
  then have cb: "chain a level b' dw" unfolding b'_def by (rule chain_last)
  have nz: "0 \<notin> set dw" using chain_nonzero[OF cb] .
  have b1: "b' = bef \<or> ?P b'"
  proof (cases "tw = []")
    case True then show ?thesis by (simp add: b'_def)
  next
    case False
    then have "last tw \<in> set tw" by simp
    then have "?P (last tw)" unfolding tw_def by (rule set_takeWhileD[THEN conjunct2])
    with False show ?thesis by (simp add: b'_def)
  qed
  have g: "getNext s b' level = Inr n'"
    using cb by (cases dw) (simp_all add: getNext_Some[OF a] n'_def)
  have n1: "n' \<noteq> 0 \<longrightarrow> Compare key (kof a n') \<le> 0"
  proof (cases dw)
    case Nil then show ?thesis by (simp add: n'_def)
  next
    case (Cons q qs)
    then have "\<not> ?P q" using hd_dropWhile[of ?P xs] by (simp add: dw_def)
    with Cons show ?thesis by (simp add: Compare_le_iff n'_def)
  qed
  have m1: "m' \<longleftrightarrow> n' \<noteq> 0 \<and> Compare key (kof a n') = 0"
    using nz by (cases dw) (auto simp: Compare_eq0 n'_def m'_def)
  from b b1 have b2: "b' = head s \<or> Compare key (kof a b') > 0"
    by (auto simp: Compare_gt_iff)
  from b1 have b3: "Compare key (kof a bef) > 0 \<longrightarrow> Compare key (kof a b') > 0"
    by (auto simp: Compare_gt_iff)
  from r b2 b3 g n1 m1 show ?thesis by blast
qed

theorem findSpliceForLevel_splice_witness:
  "chain (arenaOf listK37) 0 (head listK37) [176, 128]
   \<and> stored (arenaOf listK37) 176 \<and> stored (arenaOf listK37) 128
   \<and> findSpliceForLevel listK37 (keyK 3) (head listK37) 0 = Some (Inr (176, 128, True))
   \<and> Compare (keyK 3) (kof (arenaOf listK37) 176) > 0
   \<and> getNext listK37 176 0 = Inr 128
   \<and> Compare (keyK 3) (kof (arenaOf listK37) 128) = 0"
  using findSpliceForLevel_splice[of listK37 "arenaOf listK37" 0 "head listK37" "[176, 128]" "keyK 3"]
  by (simp add: run_defs listK37_def)

lemma kof_same: "node_key a' p = node_key a p \<Longrightarrow> kof a' p = kof a p"
  by (simp add: kof_def)

lemma vof_same: "readValue a' p = readValue a p \<Longrightarrow> vof a' p = vof a p"
  by (simp add: vof_def)

lemma stored_iff: "stored a p \<longleftrightarrow> (\<exists>k v. node_key a p = Inr k \<and> readValue a p = Inr v)"
  by (auto simp: stored_def split: sum.splits)

lemma kof_eq: "node_key a p = Inr k \<Longrightarrow> kof a p = k"
  by (simp add: kof_def)

lemma vof_eq: "readValue a p = Inr v \<Longrightarrow> vof a p = v"
  by (simp add: vof_def)

lemma randomHeight_loop_bounds:
  "1 \<le> h \<Longrightarrow> h \<le> maxHeight \<Longrightarrow>
     1 \<le> randomHeight_loop rnd h \<and> randomHeight_loop rnd h \<le> maxHeight"
proof (induction rnd h rule: randomHeight_loop.induct)
  case (1 rnd h)
  show ?case
  proof (cases "h < maxHeight \<and> rnd (h - 1) \<le> heightIncrease")
    case True
    then have "randomHeight_loop rnd h = randomHeight_loop rnd (h + 1)"
      by (subst randomHeight_loop.simps) simp
    with "1.IH"[OF True] True show ?thesis by simp
  next
    case False
    then have "randomHeight_loop rnd h = h"
      by (subst randomHeight_loop.simps) auto
    with "1.prems" show ?thesis by simp
  qed
qed

lemma randomHeight_bounds: "1 \<le> randomHeight rnd \<and> randomHeight rnd \<le> maxHeight"
  unfolding randomHeight_def by (rule randomHeight_loop_bounds) (simp_all add: maxHeight_def)

lemma raiseHeight_own:
  "raiseHeight s (height s) ht = (s\<lparr>height := max (height s) ht\<rparr>, max (height s) ht)"
  by (subst raiseHeight.simps) (simp add: casHeight_def max_def)

lemma calculate_fresh:
  assumes "1 \<le> lh" "lh \<le> maxHeight"
  shows "calculateRecomputeHeight s key newHint lh =
           Inr (lh, newHint\<lparr>hprev := (hprev newHint)(lh := head s),
                           hnext := (hnext newHint)(lh := 0),
                           hheight := lh, hitHeight := lh\<rparr>)"
  using assms by (simp add: calculateRecomputeHeight_def newHint_def inBounds_def)

lemma inv_raise:
  assumes inv: "skl_inv s Ls" and h: "1 \<le> ht" "ht \<le> maxHeight"
  shows "skl_inv (s\<lparr>height := max (height s) ht\<rparr>) Ls"
  using inv h by (auto simp: skl_inv_def level_ok_def split: option.splits)

lemma put_inplace:
  assumes inv: "skl_inv s Ls" and a: "arena s = Some a" and j: "j < maxHeight"
      and m: "matchOf a key (Ls j)"
      and sv: "setValue a (aftOf a key (Ls j)) v = Inr a'"
  shows "skl_inv (s\<lparr>arena := Some a'\<rparr>) Ls
     \<and> entries a' (Ls 0) = upsert key v (entries a (Ls 0))
     \<and> (\<forall>p. nodes a' p = None \<longleftrightarrow> nodes a p = None)
     \<and> (\<forall>p l. getNextOffset a' p l = getNextOffset a p l)"
proof -
  define n where "n = aftOf a key (Ls j)"
  from matchOf_aft[OF m inv_nonzero[OF inv a j]]
  have n: "n \<in> set (Ls j)" "kof a n = key" "n \<noteq> 0" by (auto simp: n_def)
  have n0: "n \<in> set (Ls 0)" using inv_nest_le[OF inv j, of 0] n(1) by auto
  from setValue_effect[OF sv[folded n_def] inv_arena_ok[OF inv a]]
  have e: "arena_ok a'" "\<forall>p l. getNextOffset a' p l = getNextOffset a p l"
    "\<forall>p. node_key a' p = node_key a p" "readValue a' n = Inr v"
    "\<forall>p w. p \<noteq> n \<longrightarrow> readValue a p = Inr w \<longrightarrow> readValue a' p = Inr w"
    "\<forall>p. nodes a' p = None \<longleftrightarrow> nodes a p = None" by auto
  have k: "kof a' p = kof a p" for p using e(3) kof_same[of a' p a] by simp
  have st: "stored a' p" if "stored a p" for p
  proof (cases "p = n")
    case True
    with that e(3,4) show ?thesis by (auto simp: stored_iff)
  next
    case False
    with that e(3,5) show ?thesis by (auto simp: stored_iff)
  qed
  have vo: "vof a' p = (if p = n then v else vof a p)" if "stored a p" for p
  proof (cases "p = n")
    case True with e(4) show ?thesis by (simp add: vof_eq)
  next
    case False
    from that have "readValue a p = Inr (vof a p)" by (rule stored_value)
    with False e(5) have "readValue a' p = Inr (vof a p)" by simp
    with False show ?thesis by (simp add: vof_eq)
  qed
  have ht: "1 \<le> height s" "height s \<le> maxHeight" using inv_height[OF inv] by auto
  have inv': "skl_inv (s\<lparr>arena := Some a'\<rparr>) Ls"
  proof (rule inv_transfer[OF inv a])
    show "arena (s\<lparr>arena := Some a'\<rparr>) = Some a'" by simp
    show "head (s\<lparr>arena := Some a'\<rparr>) = head s" by simp
    show "1 \<le> height (s\<lparr>arena := Some a'\<rparr>)" using ht by simp
    show "height (s\<lparr>arena := Some a'\<rparr>) \<le> maxHeight" using ht by simp
    show "arena_ok a'" by (rule e(1))
    show "\<forall>l q r. getNextOffset a q l = Inr r \<longrightarrow> getNextOffset a' q l = Inr r"
      using e(2) by simp
    show "\<forall>p. stored a p \<longrightarrow> stored a' p \<and> kof a' p = kof a p"
      using st k by simp
  qed
  have asc: "ascending a (Ls 0)"
    using inv_level[OF inv a, of 0] j by (auto simp: level_ok_def)
  have all: "\<forall>p\<in>set (Ls 0). kof a' p = kof a p \<and> vof a' p = (if p = n then v else vof a p)"
  proof
    fix p assume "p \<in> set (Ls 0)"
    then have "stored a p" using inv_stored[OF inv a, of 0 p] j by simp
    then show "kof a' p = kof a p \<and> vof a' p = (if p = n then v else vof a p)"
      using k vo by simp
  qed
  have en: "entries a' (Ls 0) = upsert key v (entries a (Ls 0))"
    by (rule upsert_present[OF asc n0 n(2) all])
  from inv' en e(6) e(2) show ?thesis by simp
qed

lemma withNode_set:
  "set (withNode a key x ht Ls l) = (if l < ht then insert x (set (Ls l)) else set (Ls l))"
proof -
  have "set (nodesBefore a key (Ls l)) \<union> set (nodesFrom a key (Ls l)) = set (Ls l)"
    using nodes_split[of a key "Ls l"] by (metis set_append)
  then show ?thesis by (auto simp: withNode_def)
qed

lemma put_insert:
  assumes inv: "skl_inv s Ls" and a: "arena s = Some a"
      and nn: "newNode a key v ht = Inr (x, a3)"
      and ht: "1 \<le> ht" "ht \<le> height s"
      and nm: "\<forall>l<ht. \<not> matchOf a key (Ls l)"
      and hp: "\<forall>l<ht. hprev h l = befOf s a key (Ls l) \<and> hnext h l = aftOf a key (Ls l)"
  shows "\<exists>sf af. linkLoop (s\<lparr>arena := Some a3\<rparr>) key x ht 0 h sv = Some (Inr (sf, h, sv))
     \<and> arena sf = Some af \<and> head sf = head s \<and> height sf = height s
     \<and> skl_inv sf (withNode a key x ht Ls)
     \<and> entries af (withNode a key x ht Ls 0) = upsert key v (entries a (Ls 0))"
proof -
  have hs: "1 \<le> height s" "height s \<le> maxHeight" using inv_height[OF inv] by auto
  then have htm: "ht \<le> maxHeight" using ht by simp
  from newNode_effect[OF nn inv_arena_ok[OF inv a]]
  have e: "x \<noteq> 0" "nodes a x = None" "arena_ok a3"
    "\<forall>p l. p \<noteq> x \<longrightarrow> getNextOffset a3 p l = getNextOffset a p l"
    "\<forall>l. getNextOffset a3 x l = (if l < ht then Inr 0 else Inl IndexOutOfRange)"
    "node_key a3 x = Inr key" "readValue a3 x = Inr v"
    "\<forall>p k. node_key a p = Inr k \<longrightarrow> node_key a3 p = Inr k"
    "\<forall>p w. readValue a p = Inr w \<longrightarrow> readValue a3 p = Inr w" by auto
  have c3: "\<forall>l<maxHeight. chain a3 l (head s) (withNode a key x 0 Ls l)"
  proof (intro allI impI)
    fix l assume l: "l < maxHeight"
    have c: "chain a l (head s) (Ls l)" using inv_level[OF inv a l] by (simp add: level_ok_def)
    have tr: "\<forall>q r. getNextOffset a q l = Inr r \<longrightarrow> getNextOffset a3 q l = Inr r"
    proof (intro allI impI)
      fix q r assume g: "getNextOffset a q l = Inr r"
      then have "q \<noteq> x" using getNextOffset_alloc[OF g] e(2) by auto
      with g e(4) show "getNextOffset a3 q l = Inr r" by simp
    qed
    from chain_transfer[OF c tr] show "chain a3 l (head s) (withNode a key x 0 Ls l)"
      by (simp add: withNode_def)
  qed
  have x0: "\<forall>l. 0 \<le> l \<longrightarrow> l < ht \<longrightarrow> getNextOffset a3 x l = Inr 0" using e(5) by simp
  from linkLoop_levels[where i=0 and si="s\<lparr>arena := Some a3\<rparr>" and ai=a3 and sv=sv and k=ht, OF inv a e(1,2) hp htm]
    c3 x0 e(3)
  obtain sf af where r: "linkLoop (s\<lparr>arena := Some a3\<rparr>) key x ht 0 h sv = Some (Inr (sf, h, sv))
           \<and> arena sf = Some af \<and> head sf = head s \<and> height sf = height s \<and> arena_ok af
           \<and> (\<forall>l<maxHeight. chain af l (head s) (withNode a key x ht Ls l))
           \<and> (\<forall>p. node_key af p = node_key a3 p)
           \<and> (\<forall>p. readValue af p = readValue a3 p)
           \<and> (\<forall>p. nodes af p = None \<longleftrightarrow> nodes a3 p = None)"
    by auto
  have kx: "kof af x = key" using r e(6) by (simp add: kof_def)
  have vx: "vof af x = v" using r e(7) by (simp add: vof_def)
  have sx: "stored af x" using r e(6,7) by (simp add: stored_iff)
  have old: "stored af p \<and> kof af p = kof a p \<and> vof af p = vof a p" if "stored a p" for p
  proof -
    from that obtain k w where kw: "node_key a p = Inr k" "readValue a p = Inr w"
      by (auto simp: stored_iff)
    then have "node_key af p = Inr k" "readValue af p = Inr w" using r e(8,9) by auto
    with kw show ?thesis by (simp add: stored_iff kof_def vof_def)
  qed
  have hal: "nodes a (head s) \<noteq> None"
    using inv_level[OF inv a, of 0] hs getNextOffset_alloc[of a "head s" 0]
    by (cases "Ls 0") (auto simp: level_ok_def maxHeight_def)
  have xh: "x \<noteq> head s" using hal e(2) by auto
  have lev: "level_ok sf af l (withNode a key x ht Ls l)" if l: "l < maxHeight" for l
  proof -
    have lv: "level_ok s a l (Ls l)" by (rule inv_level[OF inv a l])
    then have asc: "ascending a (Ls l)" and hd: "head s \<notin> set (Ls l)"
      and sto: "\<forall>p\<in>set (Ls l). stored a p" by (auto simp: level_ok_def)
    have ko: "\<forall>p\<in>set (Ls l). kof af p = kof a p" using sto old by simp
    have asc': "ascending af (Ls l)" using asc ascending_cong[OF ko] by simp
    have 1: "chain af l (head sf) (withNode a key x ht Ls l)" using r l by simp
    have 3: "head sf \<notin> set (withNode a key x ht Ls l)"
      using r hd xh by (simp add: withNode_set)
    have 4: "\<forall>p\<in>set (withNode a key x ht Ls l). stored af p"
      using sto old sx by (auto simp: withNode_set split: if_splits)
    have 2: "ascending af (withNode a key x ht Ls l)"
    proof (cases "l < ht")
      case False with asc' show ?thesis by (simp add: withNode_def)
    next
      case True
      define A where "A = nodesBefore a key (Ls l)"
      define B where "B = nodesFrom a key (Ls l)"
      have AB: "A @ B = Ls l" by (simp add: A_def B_def nodes_split)
      have ascAB: "ascending af (A @ B)" using asc' AB by simp
      have kA: "\<forall>p\<in>set A. kof af p = kof a p" using ko AB by (metis Un_iff set_append)
      have kB: "\<forall>p\<in>set B. kof af p = kof a p" using ko AB by (metis Un_iff set_append)
      have lA: "\<forall>p\<in>set A. keyLess (kof af p) key"
        using kA nodesBefore_less[of _ a key "Ls l"] by (simp add: A_def)
      have gB: "\<forall>q\<in>set B. keyLess key (kof af q)"
        using kB nodesFrom_greater[OF asc, of key] nm True by (simp add: B_def)
      have "ascending af (A @ x # B)"
        using ascAB lA gB kx
        by (auto simp: ascending_append ascending_Cons)
      with True show ?thesis by (simp add: withNode_def A_def B_def)
    qed
    from 1 2 3 4 show ?thesis by (simp add: level_ok_def)
  qed
  have nest: "\<forall>l. Suc l < maxHeight \<longrightarrow>
      set (withNode a key x ht Ls (Suc l)) \<subseteq> set (withNode a key x ht Ls l)"
    using inv_nest[OF inv] by (auto simp: withNode_set)
  have inv': "skl_inv sf (withNode a key x ht Ls)"
    using r hs lev nest by (simp add: skl_inv_def)
  have asc0: "ascending a (Ls 0)"
    using inv_level[OF inv a, of 0] hs by (auto simp: level_ok_def maxHeight_def)
  have sto0: "\<forall>p\<in>set (Ls 0). stored a p"
    using inv_level[OF inv a, of 0] hs by (auto simp: level_ok_def maxHeight_def)
  have nm0: "\<not> matchOf a key (Ls 0)" using nm ht by simp
  have w0: "withNode a key x ht Ls 0 = nodesBefore a key (Ls 0) @ x # nodesFrom a key (Ls 0)"
    using ht by (simp add: withNode_def)
  have same: "\<forall>p\<in>set (nodesBefore a key (Ls 0) @ nodesFrom a key (Ls 0)).
                kof af p = kof a p \<and> vof af p = vof a p"
    using sto0 old by (simp add: nodes_split)
  have lA: "\<forall>p\<in>set (nodesBefore a key (Ls 0)). keyLess (kof a p) key"
    using nodesBefore_less[of _ a key "Ls 0"] by simp
  have en: "entries af (withNode a key x ht Ls 0) = upsert key v (entries a (Ls 0))"
    using upsert_absent[OF lA nodesFrom_greater[OF asc0 nm0] kx vx same]
    by (simp add: w0 nodes_split)
  from r inv' en show ?thesis by blast
qed

lemma PutWithHint_nil:
  assumes inv: "skl_inv s Ls" and a: "arena s = Some a"
  shows "PutWithHint s key v None rnd = Some (Inl OutOfArena)
     \<or> (\<exists>s' h' a' Ls'. PutWithHint s key v None rnd = Some (Inr (s', h'))
          \<and> arena s' = Some a' \<and> skl_inv s' Ls' \<and> head s' = head s
          \<and> height s' = max (height s) (randomHeight rnd)
          \<and> entries a' (Ls' 0) = upsert key v (entries a (Ls 0))
          \<and> ((\<exists>p\<in>set (Ls 0). kof a p = key) \<longrightarrow>
                Ls' = Ls \<and> (\<forall>p. nodes a' p = None \<longleftrightarrow> nodes a p = None)
                \<and> (\<forall>p l. getNextOffset a' p l = getNextOffset a p l)))"
proof -
  let ?ht = "randomHeight rnd"
  let ?lh = "max (height s) ?ht"
  let ?s1 = "s\<lparr>height := ?lh\<rparr>"
  let ?h1 = "newHint\<lparr>hprev := (hprev newHint)(?lh := head ?s1),
                     hnext := (hnext newHint)(?lh := 0),
                     hheight := ?lh, hitHeight := ?lh\<rparr>"
  have htb: "1 \<le> ?ht" "?ht \<le> maxHeight" using randomHeight_bounds[of rnd] by auto
  have hs: "1 \<le> height s" "height s \<le> maxHeight" using inv_height[OF inv] by auto
  have lhb: "1 \<le> ?lh" "?lh \<le> maxHeight" using htb hs by auto
  have inv1: "skl_inv ?s1 Ls" by (rule inv_raise[OF inv htb])
  have a1: "arena ?s1 = Some a" using a by simp
  have ok: "arena_ok a" by (rule inv_arena_ok[OF inv a])
  have calc: "calculateRecomputeHeight ?s1 key newHint ?lh = Inr (?lh, ?h1)"
    by (rule calculate_fresh[OF lhb])
  have hp: "hprev ?h1 ?lh = head ?s1" by simp
  have pos: "0 < ?lh" using lhb by simp
  have nn0: "((None::hint option) \<noteq> None) = False" by simp
  have step: "PutWithHint s key v None rnd =
     (case spliceLoop ?s1 key v ?h1 ?lh of
        None \<Rightarrow> None
      | Some (Inl e) \<Rightarrow> Some (Inl e)
      | Some (Inr (InPlace s2 h2)) \<Rightarrow> Some (Inr (s2, h2))
      | Some (Inr (NoMatch h2)) \<Rightarrow>
          (case newNode a key v ?ht of
             Inl e \<Rightarrow> Some (Inl e)
           | Inr (x, a') \<Rightarrow>
               (case linkLoop (?s1\<lparr>arena := Some a'\<rparr>) key x ?ht 0 h2 False of
                  None \<Rightarrow> None
                | Some (Inl e) \<Rightarrow> Some (Inl e)
                | Some (Inr (s3, h3, stillValid)) \<Rightarrow>
                    if stillValid then
                      (case refreshHint s3 x ?ht 0 h3 of
                         Inl e \<Rightarrow> Some (Inl e)
                       | Inr h4 \<Rightarrow> Some (Inr (s3, h4)))
                    else Some (Inr (s3, h3\<lparr>hheight := 0\<rparr>)))))"
    unfolding PutWithHint_def getHeight_def raiseHeight_own Let_def prod.case
      option.case calc sum.case withArena_Some[OF a1] nn0
    using pos by simp
  from spliceLoop_levels[where key=key and v=v and h="?h1" and n="?lh", OF inv1 a1 lhb(2) disjI1[OF hp]]
  consider (oom) "spliceLoop ?s1 key v ?h1 ?lh = Some (Inl OutOfArena)"
    | (nomatch) h' where "spliceLoop ?s1 key v ?h1 ?lh = Some (Inr (NoMatch h'))"
        "\<forall>j<?lh. hprev h' j = befOf ?s1 a key (Ls j) \<and> hnext h' j = aftOf a key (Ls j)
                          \<and> \<not> matchOf a key (Ls j)"
    | (inplace) h' a' j where "spliceLoop ?s1 key v ?h1 ?lh = Some (Inr (InPlace (?s1\<lparr>arena := Some a'\<rparr>) h'))"
        "j < ?lh" "matchOf a key (Ls j)" "setValue a (aftOf a key (Ls j)) v = Inr a'"
    by blast
  then show ?thesis
  proof cases
    case oom
    then show ?thesis unfolding step by simp
  next
    case (inplace h' a' j)
    have jm: "j < maxHeight" by (rule less_le_trans[OF inplace(2) lhb(2)])
    from put_inplace[OF inv1 a1 jm inplace(3,4)]
    have e: "skl_inv (?s1\<lparr>arena := Some a'\<rparr>) Ls"
      "entries a' (Ls 0) = upsert key v (entries a (Ls 0))"
      "\<forall>p. nodes a' p = None \<longleftrightarrow> nodes a p = None"
      "\<forall>p l. getNextOffset a' p l = getNextOffset a p l" by auto
    have r: "PutWithHint s key v None rnd = Some (Inr (?s1\<lparr>arena := Some a'\<rparr>, h'))"
      unfolding step inplace(1) by simp
    have "\<exists>s' h' a' Ls'. PutWithHint s key v None rnd = Some (Inr (s', h'))
          \<and> arena s' = Some a' \<and> skl_inv s' Ls' \<and> head s' = head s
          \<and> height s' = max (height s) (randomHeight rnd)
          \<and> entries a' (Ls' 0) = upsert key v (entries a (Ls 0))
          \<and> ((\<exists>p\<in>set (Ls 0). kof a p = key) \<longrightarrow>
                Ls' = Ls \<and> (\<forall>p. nodes a' p = None \<longleftrightarrow> nodes a p = None)
                \<and> (\<forall>p l. getNextOffset a' p l = getNextOffset a p l))"
      apply (rule exI[of _ "?s1\<lparr>arena := Some a'\<rparr>"])
      apply (rule exI[of _ h'])
      apply (rule exI[of _ a'])
      apply (rule exI[of _ Ls])
      using r e by simp
    then show ?thesis by (rule disjI2)
  next
    case (nomatch h')
    show ?thesis
    proof (cases "newNode a key v ?ht")
      case (Inl e)
      then have "e = OutOfArena" using newNode_error[OF _ ok] by blast
      with Inl show ?thesis unfolding step nomatch(1) by simp
    next
      case (Inr r)
      obtain x a3 where r: "r = (x, a3)" by (cases r)
      have nn: "newNode a key v ?ht = Inr (x, a3)" using Inr r by simp
      have hl: "?ht \<le> height ?s1" by simp
      have nm: "\<forall>l<?ht. \<not> matchOf a key (Ls l)" using nomatch(2) by simp
      have hp': "\<forall>l<?ht. hprev h' l = befOf ?s1 a key (Ls l) \<and> hnext h' l = aftOf a key (Ls l)"
        using nomatch(2) by simp
      from put_insert[OF inv1 a1 nn htb(1) hl nm hp', of False]
      obtain sf af where l: "linkLoop (?s1\<lparr>arena := Some a3\<rparr>) key x ?ht 0 h' False = Some (Inr (sf, h', False))"
        "arena sf = Some af" "head sf = head ?s1" "height sf = height ?s1"
        "skl_inv sf (withNode a key x ?ht Ls)"
        "entries af (withNode a key x ?ht Ls 0) = upsert key v (entries a (Ls 0))"
        by blast
      have res: "PutWithHint s key v None rnd = Some (Inr (sf, h'\<lparr>hheight := 0\<rparr>))"
        unfolding step nomatch(1) by (simp add: nn l(1))
      have asc0: "ascending a (Ls 0)"
        using inv_level[OF inv a, of 0] hs by (auto simp: level_ok_def maxHeight_def)
      have absent: "\<not> (\<exists>p\<in>set (Ls 0). kof a p = key)"
      proof
        assume "\<exists>p\<in>set (Ls 0). kof a p = key"
        then obtain p where "p \<in> set (Ls 0)" "kof a p = key" by blast
        from nodes_present[OF asc0 this] have "matchOf a key (Ls 0)" by simp
        with nomatch(2) pos show False by blast
      qed
      have "\<exists>s' h' a' Ls'. PutWithHint s key v None rnd = Some (Inr (s', h'))
          \<and> arena s' = Some a' \<and> skl_inv s' Ls' \<and> head s' = head s
          \<and> height s' = max (height s) (randomHeight rnd)
          \<and> entries a' (Ls' 0) = upsert key v (entries a (Ls 0))
          \<and> ((\<exists>p\<in>set (Ls 0). kof a p = key) \<longrightarrow>
                Ls' = Ls \<and> (\<forall>p. nodes a' p = None \<longleftrightarrow> nodes a p = None)
                \<and> (\<forall>p l. getNextOffset a' p l = getNextOffset a p l))"
        apply (rule exI[of _ sf])
        apply (rule exI[of _ "h'\<lparr>hheight := 0\<rparr>"])
        apply (rule exI[of _ af])
        apply (rule exI[of _ "withNode a key x ?ht Ls"])
        using res l absent by simp
      then show ?thesis by (rule disjI2)
    qed
  qed
qed

lemma listK3_inv: "skl_inv listK3 levelsK3"
  by (simp add: skl_inv_def level_ok_def ascending_def stored_def arena_ok_def levelsK3_def
      listK3_def getNextOffset_def deref_def node_key_def readValue_def getKey_def getVal_def
      getValueOffset_def decodeValue_def maxHeight_def nth_list_update)

lemma listK37_inv: "skl_inv listK37 levelsK37"
proof -
  have c: "l < 3 \<longleftrightarrow> l = 0 \<or> l = Suc 0 \<or> l = Suc (Suc 0)" for l :: nat by auto
  show ?thesis
    by (auto simp add: skl_inv_def level_ok_def ascending_def stored_def arena_ok_def
        levelsK37_def listK37_def getNextOffset_def deref_def node_key_def readValue_def
        getKey_def getVal_def getValueOffset_def decodeValue_def maxHeight_def nth_list_update
        kof_def keyLess_def Compare_def c)
qed

lemma emptyList_inv: "skl_inv emptyList (\<lambda>l. [])"
  using newSkiplist_inv[OF emptyList_built] by simp

lemma find_leftmost:
  "ascending a xs \<Longrightarrow> find P xs = Some n
     \<Longrightarrow> n \<in> set xs \<and> P n \<and> (\<forall>p\<in>set xs. P p \<longrightarrow> p = n \<or> keyLess (kof a n) (kof a p))"
proof (induction xs)
  case Nil then show ?case by simp
next
  case (Cons x xs)
  then show ?case by (cases "P x") (auto simp: ascending_Cons)
qed

lemma find_rightmost:
  "ascending a xs \<Longrightarrow> find P (rev xs) = Some n
     \<Longrightarrow> n \<in> set xs \<and> P n \<and> (\<forall>p\<in>set xs. P p \<longrightarrow> p = n \<or> keyLess (kof a p) (kof a n))"
proof (induction xs rule: rev_induct)
  case Nil then show ?case by simp
next
  case (snoc x xs)
  then show ?case by (cases "P x") (auto simp: ascending_append ascending_Cons)
qed

lemma head_nonzero:
  assumes inv: "skl_inv s Ls" and a: "arena s = Some a"
  shows "head s \<noteq> 0"
proof -
  have "chain a 0 (head s) (Ls 0)"
    using inv_level[OF inv a, of 0] by (simp add: level_ok_def maxHeight_def)
  then show ?thesis using getNextOffset_alloc[of a "head s" 0] by (cases "Ls 0") auto
qed

lemma nearest_find:
  "nearest a xs key less' allowEqual =
     (case find (wanted a key less' allowEqual) (if less' then rev xs else xs) of
        None \<Rightarrow> (0, False)
      | Some p \<Rightarrow> (p, Compare key (kof a p) = 0))"
proof -
  have 1: "wanted a key True allowEqual =
      (\<lambda>p. if allowEqual then Compare (kof a p) key \<le> 0 else Compare (kof a p) key < 0)"
    by (rule ext) (simp add: wanted_def)
  have 2: "wanted a key False allowEqual =
      (\<lambda>p. if allowEqual then Compare (kof a p) key \<ge> 0 else Compare (kof a p) key > 0)"
    by (rule ext) (simp add: wanted_def)
  show ?thesis by (cases less') (simp_all add: nearest_def 1 2)
qed

lemma nearest_wanted:
  assumes asc: "ascending a xs" and z: "0 \<notin> set xs" and r: "nearest a xs key less' allowEqual = (n, eq)"
  shows "(n = 0 \<longleftrightarrow> \<not> (\<exists>p\<in>set xs. wanted a key less' allowEqual p))
     \<and> (n \<noteq> 0 \<longrightarrow> n \<in> set xs \<and> wanted a key less' allowEqual n
          \<and> (\<forall>p\<in>set xs. wanted a key less' allowEqual p \<longrightarrow>
               p = n \<or> (if less' then keyLess (kof a p) (kof a n) else keyLess (kof a n) (kof a p))))
     \<and> (eq \<longleftrightarrow> n \<noteq> 0 \<and> Compare key (kof a n) = 0)"
proof (cases less')
  case True
  show ?thesis
  proof (cases "find (wanted a key True allowEqual) (rev xs)")
    case None
    then have "\<not> (\<exists>p\<in>set xs. wanted a key True allowEqual p)"
      by (auto simp: find_None_iff)
    moreover from None r True have "n = 0" "\<not> eq" by (auto simp: nearest_find)
    ultimately show ?thesis using True by simp
  next
    case (Some m)
    from find_rightmost[OF asc Some] have m: "m \<in> set xs" "wanted a key True allowEqual m"
      "\<forall>p\<in>set xs. wanted a key True allowEqual p \<longrightarrow> p = m \<or> keyLess (kof a p) (kof a m)" by auto
    from Some r True have "n = m" "eq \<longleftrightarrow> Compare key (kof a m) = 0"
      by (auto simp: nearest_find)
    with m z True show ?thesis by auto
  qed
next
  case False
  show ?thesis
  proof (cases "find (wanted a key False allowEqual) xs")
    case None
    then have "\<not> (\<exists>p\<in>set xs. wanted a key False allowEqual p)"
      by (auto simp: find_None_iff)
    moreover from None r False have "n = 0" "\<not> eq" by (auto simp: nearest_find)
    ultimately show ?thesis using False by simp
  next
    case (Some m)
    from find_leftmost[OF asc Some] have m: "m \<in> set xs" "wanted a key False allowEqual m"
      "\<forall>p\<in>set xs. wanted a key False allowEqual p \<longrightarrow> p = m \<or> keyLess (kof a m) (kof a p)" by auto
    from Some r False have "n = m" "eq \<longleftrightarrow> Compare key (kof a m) = 0"
      by (auto simp: nearest_find)
    with m z False show ?thesis by auto
  qed
qed

lemma arena_listK37: "arena listK37 = Some (arenaOf listK37)"
  by (simp add: listK37_def arenaOf_def)

lemma arena_emptyList: "arena emptyList = Some (arenaOf emptyList)"
  by (simp add: emptyList_def arenaOf_def)

text \<open>
  Claim C2. On a skiplist whose levels are strictly ascending chains, \<open>findNear\<close>
  returns, for each of its four queries, the node the query asks for: without \<open>less\<close>
  the leftmost node with a greater key (or a greater or equal key, with \<open>allowEqual\<close>),
  with \<open>less\<close> the rightmost node with a smaller key (or a smaller or equal key); \<open>nil\<close>
  exactly when no node qualifies; and the flag is true exactly when the key of the node
  returned compares equal to the search key. \<open>Seek\<close> positions the iterator on the node
  of the query without \<open>less\<close> and with \<open>allowEqual\<close>.
\<close>

theorem findNear_queries:
  assumes inv: "skl_inv s Ls" and a: "arena s = Some a"
  shows "\<exists>n eq. findNear s key less' allowEqual = Some (Inr (n, eq))
     \<and> (n, eq) = nearest a (Ls 0) key less' allowEqual
     \<and> (n = 0 \<longleftrightarrow> \<not> (\<exists>p\<in>set (Ls 0). wanted a key less' allowEqual p))
     \<and> (n \<noteq> 0 \<longrightarrow> n \<in> set (Ls 0) \<and> wanted a key less' allowEqual n
          \<and> (\<forall>p\<in>set (Ls 0). wanted a key less' allowEqual p \<longrightarrow>
               p = n \<or> (if less' then keyLess (kof a p) (kof a n)
                         else keyLess (kof a n) (kof a p))))
     \<and> (eq \<longleftrightarrow> n \<noteq> 0 \<and> Compare key (kof a n) = 0)
     \<and> Seek \<lparr>it_list = s, it_n = m\<rparr> key =
           Some (Inr \<lparr>it_list = s, it_n = fst (nearest a (Ls 0) key False True)\<rparr>)"
proof -
  obtain n eq where r: "nearest a (Ls 0) key less' allowEqual = (n, eq)"
    by (cases "nearest a (Ls 0) key less' allowEqual")
  have lm: "0 < maxHeight" by (simp add: maxHeight_def)
  have asc: "ascending a (Ls 0)"
    using inv_level[OF inv a lm] by (simp add: level_ok_def)
  have f: "findNear s key less' allowEqual = Some (Inr (n, eq))"
    using findNear_correct[OF inv a, of key less' allowEqual] r by simp
  have sk: "Seek \<lparr>it_list = s, it_n = m\<rparr> key =
           Some (Inr \<lparr>it_list = s, it_n = fst (nearest a (Ls 0) key False True)\<rparr>)"
    using findNear_correct[OF inv a, of key False True]
    by (cases "nearest a (Ls 0) key False True") (simp add: Seek_def)
  from nearest_wanted[OF asc inv_nonzero[OF inv a lm] r] f r sk show ?thesis
    by (intro exI[of _ n] exI[of _ eq]) simp
qed

theorem findNear_queries_witness:
  "findNear listK37 (keyK 5) False True = Some (Inr (128, False))
   \<and> nearest (arenaOf listK37) (levelsK37 0) (keyK 5) False True = (128, False)
   \<and> Seek \<lparr>it_list = listK37, it_n = 0\<rparr> (keyK 5) = Some (Inr \<lparr>it_list = listK37, it_n = 128\<rparr>)"
proof -
  have n: "nearest (arenaOf listK37) (levelsK37 0) (keyK 5) False True = (128, False)"
    by (simp add: nearest_def levelsK37_def listK37_def arenaOf_def kof_def node_key_def
        deref_def getKey_def Compare_def keyK_def)
  from findNear_queries[OF listK37_inv arena_listK37, of "keyK 5" False True 0]
  show ?thesis by (auto simp: n)
qed

lemma Compare_same_user:
  assumes "UserKey k1 = UserKey k2"
  shows "Compare k1 k2 \<ge> 0 \<longleftrightarrow> Key.Version k1 \<le> Key.Version k2"
    and "Compare k1 k2 < 0 \<longleftrightarrow> Key.Version k2 < Key.Version k1"
  using assms bytesCompare_eq0[of "UserKey k1" "UserKey k2"]
  by (auto simp: Compare_def Let_def)

lemma near_K37_5: "findNear listK37 (keyK 5) False True = Some (Inr (128, False))"
proof -
  have n: "nearest (arenaOf listK37) (levelsK37 0) (keyK 5) False True = (128, False)"
    by (simp add: nearest_def levelsK37_def listK37_def arenaOf_def kof_def node_key_def
        deref_def getKey_def Compare_def keyK_def)
  from findNear_correct[OF listK37_inv arena_listK37, of "keyK 5" False True]
  show ?thesis by (simp add: n)
qed

text \<open>
  Claim C3. \<open>Get\<close> of a key is the lookup of the node \<open>n\<close> that \<open>findNear\<close> returns for
  the key without \<open>less\<close> and with \<open>allowEqual\<close>, the first node whose key is greater
  than or equal to the key: the empty value when \<open>n\<close> is \<open>nil\<close> or holds another user
  key, otherwise the value stored in \<open>n\<close> with the Version of the key of \<open>n\<close>. When \<open>n\<close>
  holds the user key, its Version is the greatest stored Version of that user key that
  does not exceed the Version asked for.
\<close>

theorem Get_first_not_less:
  assumes inv: "skl_inv s Ls" and a: "arena s = Some a"
  shows "\<exists>n eq. findNear s key False True = Some (Inr (n, eq))
     \<and> Get s key = Some (Inr (if n = 0 \<or> \<not> SameUserKey key (kof a n) then emptyValue
                              else (vof a n)\<lparr>ValueStruct.Version := Key.Version (kof a n)\<rparr>))
     \<and> (n = 0 \<longleftrightarrow> \<not> (\<exists>p\<in>set (Ls 0). Compare (kof a p) key \<ge> 0))
     \<and> (n \<noteq> 0 \<longrightarrow> n \<in> set (Ls 0) \<and> Compare (kof a n) key \<ge> 0
          \<and> (\<forall>p\<in>set (Ls 0). Compare (kof a p) key \<ge> 0 \<longrightarrow>
                p = n \<or> keyLess (kof a n) (kof a p)))
     \<and> (n \<noteq> 0 \<and> SameUserKey key (kof a n) \<longrightarrow>
          Key.Version (kof a n) \<le> Key.Version key
          \<and> (\<forall>p\<in>set (Ls 0). SameUserKey key (kof a p) \<and> Key.Version (kof a p) \<le> Key.Version key
                \<longrightarrow> Key.Version (kof a p) \<le> Key.Version (kof a n)))"
proof -
  obtain n eq where r: "nearest a (Ls 0) key False True = (n, eq)"
    by (cases "nearest a (Ls 0) key False True")
  have lm: "0 < maxHeight" by (simp add: maxHeight_def)
  have asc: "ascending a (Ls 0)"
    using inv_level[OF inv a lm] by (simp add: level_ok_def)
  have f: "findNear s key False True = Some (Inr (n, eq))"
    using findNear_correct[OF inv a, of key False True] r by simp
  from nearest_wanted[OF asc inv_nonzero[OF inv a lm] r]
  have w: "n = 0 \<longleftrightarrow> \<not> (\<exists>p\<in>set (Ls 0). Compare (kof a p) key \<ge> 0)"
    "n \<noteq> 0 \<longrightarrow> n \<in> set (Ls 0) \<and> Compare (kof a n) key \<ge> 0
          \<and> (\<forall>p\<in>set (Ls 0). Compare (kof a p) key \<ge> 0 \<longrightarrow>
                p = n \<or> keyLess (kof a n) (kof a p))"
    by (simp_all add: wanted_def)
  have g: "Get s key = Some (Inr (if n = 0 \<or> \<not> SameUserKey key (kof a n) then emptyValue
                              else (vof a n)\<lparr>ValueStruct.Version := Key.Version (kof a n)\<rparr>))"
  proof (cases "n = 0")
    case True
    then show ?thesis by (simp add: Get_def f lookupNode_def)
  next
    case False
    with w(2) have "stored a n" using inv_stored[OF inv a lm] by simp
    from lookupNode_stored[OF a this False, of key] False show ?thesis
      by (simp add: Get_def f)
  qed
  have v: "Key.Version (kof a n) \<le> Key.Version key
          \<and> (\<forall>p\<in>set (Ls 0). SameUserKey key (kof a p) \<and> Key.Version (kof a p) \<le> Key.Version key
                \<longrightarrow> Key.Version (kof a p) \<le> Key.Version (kof a n))"
    if n: "n \<noteq> 0" and su: "SameUserKey key (kof a n)"
  proof (intro conjI ballI impI)
    from su have u: "UserKey (kof a n) = UserKey key" by (simp add: SameUserKey_def)
    from w(2) n have ge: "Compare (kof a n) key \<ge> 0" by simp
    then show "Key.Version (kof a n) \<le> Key.Version key"
      using Compare_same_user(1)[OF u] by simp
    fix p assume p: "p \<in> set (Ls 0)"
      and sp: "SameUserKey key (kof a p) \<and> Key.Version (kof a p) \<le> Key.Version key"
    then have up: "UserKey (kof a p) = UserKey key" by (simp add: SameUserKey_def)
    with sp have "Compare (kof a p) key \<ge> 0" using Compare_same_user(1)[OF up] by simp
    with w(2) n p have "p = n \<or> keyLess (kof a n) (kof a p)" by simp
    then show "Key.Version (kof a p) \<le> Key.Version (kof a n)"
    proof
      assume "p = n" then show ?thesis by simp
    next
      assume "keyLess (kof a n) (kof a p)"
      then have "Compare (kof a n) (kof a p) < 0" by (simp add: keyLess_def)
      moreover have "UserKey (kof a n) = UserKey (kof a p)" using u up by simp
      ultimately show ?thesis using Compare_same_user(2) by fastforce
    qed
  qed
  from f g w v show ?thesis by (intro exI[of _ n] exI[of _ eq]) simp
qed

theorem Get_first_not_less_witness:
  "Get listK37 (keyK 5) =
     Some (Inr ((valueOfByte 1)\<lparr>ValueStruct.Version := 3\<rparr>))"
proof -
  let ?a = "arenaOf listK37"
  from Get_first_not_less[OF listK37_inv arena_listK37, of "keyK 5"]
  obtain n eq where f: "findNear listK37 (keyK 5) False True = Some (Inr (n, eq))"
    and g: "Get listK37 (keyK 5) =
        Some (Inr (if n = 0 \<or> \<not> SameUserKey (keyK 5) (kof ?a n) then emptyValue
                   else (vof ?a n)\<lparr>ValueStruct.Version := Key.Version (kof ?a n)\<rparr>))"
    by blast
  from f have n: "n = 128" by (simp add: near_K37_5)
  have k: "kof ?a 128 = keyK 3"
    by (simp add: keyK_def listK37_def arenaOf_def kof_def node_key_def deref_def getKey_def)
  have v: "vof ?a 128 = valueOfByte 1"
    by (simp add: valueOfByte_def listK37_def arenaOf_def vof_def readValue_def deref_def
        getValueOffset_def decodeValue_def getVal_def)
  show ?thesis unfolding g n k v by (simp add: SameUserKey_def keyK_def)
qed

lemma valid_emptyList: "valid emptyList"
  by (simp add: valid_def emptyList_def)

text \<open>
  Claim C8. The reads of a live skiplist return and never hand out the head sentinel:
  \<open>findNear\<close> and \<open>findLast\<close> return a node other than the head (\<open>nil\<close> in its stead),
  \<open>Get\<close> returns a value, and the forward iteration ends on an iterator that is not
  valid. On a freshly created skiplist \<open>Empty\<close> is true, \<open>Get\<close> of any key is the empty
  value and \<open>SeekToFirst\<close> leaves the iterator not valid.
\<close>

theorem reads_never_head:
  "(skl_inv s Ls \<and> arena s = Some a \<longrightarrow>
      (\<exists>n eq. findNear s key less' allowEqual = Some (Inr (n, eq)) \<and> n \<noteq> head s)
    \<and> (\<exists>n. findLast s = Some (Inr n) \<and> n \<noteq> head s)
    \<and> (\<exists>v. Get s key = Some (Inr v))
    \<and> (\<exists>es it. forward s = Some (Inr (es, it)) \<and> \<not> Valid it))
   \<and> (newSkiplist sz = Inr s0 \<longrightarrow>
        Empty s0 = Some (Inr True) \<and> Get s0 key = Some (Inr emptyValue)
        \<and> (\<exists>it. SeekToFirst (NewIterator s0) = Inr it \<and> \<not> Valid it))"
proof (intro conjI impI)
  assume "skl_inv s Ls \<and> arena s = Some a"
  then have inv: "skl_inv s Ls" and a: "arena s = Some a" by auto
  have lm: "0 < maxHeight" by (simp add: maxHeight_def)
  have hz: "head s \<noteq> 0" by (rule head_nonzero[OF inv a])
  have hn: "head s \<notin> set (Ls 0)" using inv_level[OF inv a lm] by (rule level_head)
  obtain n eq where r: "nearest a (Ls 0) key less' allowEqual = (n, eq)"
    by (cases "nearest a (Ls 0) key less' allowEqual")
  from nearest_cases[OF r] hz hn have "n \<noteq> head s" by auto
  then show "\<exists>n eq. findNear s key less' allowEqual = Some (Inr (n, eq)) \<and> n \<noteq> head s"
    using findNear_correct[OF inv a, of key less' allowEqual] r by simp
  have "(if Ls 0 = [] then 0 else last (Ls 0)) \<noteq> head s"
  proof (cases "Ls 0 = []")
    case True then show ?thesis using hz by simp
  next
    case False
    from last_in_set[OF False] hn have "last (Ls 0) \<noteq> head s" by metis
    with False show ?thesis by simp
  qed
  then show "\<exists>n. findLast s = Some (Inr n) \<and> n \<noteq> head s"
    using findLast_correct[OF inv a] by simp
  show "\<exists>v. Get s key = Some (Inr v)" using Get_correct[OF inv a, of key] by simp
  show "\<exists>es it. forward s = Some (Inr (es, it)) \<and> \<not> Valid it"
    using forward_correct[OF inv a] by (simp add: Valid_def)
next
  assume n: "newSkiplist sz = Inr s0"
  from newSkiplist_inv[OF n] have inv: "skl_inv s0 (\<lambda>_. [])" by simp
  from inv_arena[OF inv] obtain a0 where a: "arena s0 = Some a0" by blast
  have lm: "0 < maxHeight" by (simp add: maxHeight_def)
  show "Empty s0 = Some (Inr True)"
    using findLast_correct[OF inv a] by (simp add: Empty_def)
  show "Get s0 key = Some (Inr emptyValue)"
    using Get_correct[OF inv a, of key] by simp
  have "getNextOffset a0 (head s0) 0 = Inr 0"
    using inv_level[OF inv a lm] by (simp add: level_ok_def)
  then show "\<exists>it. SeekToFirst (NewIterator s0) = Inr it \<and> \<not> Valid it"
    by (simp add: SeekToFirst_def NewIterator_def getNext_Some[OF a] Valid_def)
qed

theorem reads_never_head_witness:
  "(\<exists>n eq. findNear listK37 (keyK 5) True False = Some (Inr (n, eq)) \<and> n \<noteq> head listK37)
   \<and> (\<exists>n. findLast listK37 = Some (Inr n) \<and> n \<noteq> head listK37)
   \<and> (\<exists>v. Get listK37 (keyK 5) = Some (Inr v))
   \<and> (\<exists>es it. forward listK37 = Some (Inr (es, it)) \<and> \<not> Valid it)
   \<and> Empty emptyList = Some (Inr True) \<and> Get emptyList (keyK 5) = Some (Inr emptyValue)
   \<and> (\<exists>it. SeekToFirst (NewIterator emptyList) = Inr it \<and> \<not> Valid it)"
  using reads_never_head[where s=listK37 and Ls=levelsK37 and a="arenaOf listK37"
      and key="keyK 5" and less'=True and allowEqual=False and sz=4096 and ?s0.0=emptyList]
    listK37_inv arena_listK37 emptyList_built
  by blast

text \<open>
  Claim C9, as stated, fails: \<open>Delete\<close> resets the arena through the arena pointer and
  then sets the pointer to \<open>nil\<close>, so a second \<open>Delete\<close> dereferences \<open>nil\<close>. On the
  freshly created list the first \<open>Delete\<close> returns and the second one fails.
\<close>

theorem Delete_twice_fails:
  "Delete emptyList = Inr (emptyList\<lparr>arena := None, head := 0\<rparr>)
   \<and> Delete (emptyList\<lparr>arena := None, head := 0\<rparr>) = Inl NilPointer"
  by (simp add: Delete_def withArena_def emptyList_def)

text \<open>
  Claim C9, amended. \<open>Delete\<close> tears a live skiplist down once: it returns, the arena
  and the head are \<open>nil\<close> afterwards and the list is no longer valid; a second \<open>Delete\<close>
  on the torn-down list fails on the \<open>nil\<close> arena.
\<close>

theorem Delete_tears_down_once:
  assumes "valid s"
  shows "\<exists>s'. Delete s = Inr s' \<and> arena s' = None \<and> head s' = 0 \<and> height s' = height s
            \<and> \<not> valid s' \<and> Delete s' = Inl NilPointer"
  using assms by (auto simp: Delete_def withArena_def valid_def)

theorem Delete_tears_down_once_witness:
  "\<exists>s'. Delete emptyList = Inr s' \<and> arena s' = None \<and> head s' = 0
         \<and> height s' = height emptyList \<and> \<not> valid s' \<and> Delete s' = Inl NilPointer"
  using Delete_tears_down_once[OF valid_emptyList] by simp

lemmas hint_defs = GetWithHint_def lookupNode_def valueOf_def SameUserKey_def Get_def
  findNear_def findNear_loop.simps recomputeLoop.simps skipSame.simps refreshHint.simps
  contents_def forward_def forward_loop.simps SeekToFirst_def NewIterator_def Valid_def
  iterKey_def iterValue_def Next_def

text \<open>
  Claim C1 on the code. A caller keeps one hint and puts the same key three times into
  an empty list, every node one level high. The first put links node 128 and the second
  one overwrites its value in place. For the third put \<open>calculateRecomputeHeight\<close>
  returns 0, because the hint still fits (\<open>h.prev[0]\<close> is the head and \<open>h.next[0]\<close> is
  node 128, whose key is the key put), so the search of the splice, the only place where
  \<open>PutWithHint\<close> looks for a match, is skipped and a second node, 184, is linked before
  node 128: two nodes of the list hold the same key.
\<close>

theorem hinted_put_duplicates:
  "(case putAllWithHint emptyList newHint
           [(keyK 5, valueOfByte 1, lowTower), (keyK 5, valueOfByte 2, lowTower),
            (keyK 5, valueOfByte 3, lowTower)] of
      Some (Inr (s3, h3)) \<Rightarrow>
        Some (getNext s3 (head s3) 0, getNext s3 184 0, getNext s3 128 0,
              withArena s3 (\<lambda>a. node_key a 184), withArena s3 (\<lambda>a. node_key a 128))
    | _ \<Rightarrow> None)
   = Some (Inr 184, Inr 128, Inr 0, Inr (keyK 5), Inr (keyK 5))"
  by (simp add: run_defs hint_defs emptyList_def)

text \<open>
  Claim C5 on the code. On the list of the three puts above, the forward iteration
  visits the key twice, with the values of the third and of the second put.
\<close>

theorem hinted_put_iteration:
  "(case putAllWithHint emptyList newHint
           [(keyK 5, valueOfByte 1, lowTower), (keyK 5, valueOfByte 2, lowTower),
            (keyK 5, valueOfByte 3, lowTower)] of
      Some (Inr (s3, h3)) \<Rightarrow> contents s3
    | _ \<Rightarrow> None)
   = Some [(keyK 5, valueOfByte 3), (keyK 5, valueOfByte 2)]"
  by (simp add: run_defs hint_defs emptyList_def)

text \<open>
  Claim C10 on the code. The list holds the key \<open>k\<close> at version 3 only. \<open>Get\<close> of \<open>k\<close> at
  version 5 returns the value stored at version 3. \<open>GetWithHint\<close> of the same key with a
  \<open>nil\<close> hint searches the splice, finds no node with exactly this key and returns the
  empty value; called again with the hint that the first call filled in, it takes
  \<open>h.next[0]\<close> without a search and returns the value stored at version 3.
\<close>

theorem GetWithHint_not_Get:
  "Get listK3 (keyK 5) = Some (Inr ((valueOfByte 1)\<lparr>ValueStruct.Version := 3\<rparr>))
   \<and> (\<exists>h. GetWithHint listK3 (keyK 5) None = Some (Inr (emptyValue, h))
          \<and> (\<exists>h'. GetWithHint listK3 (keyK 5) (Some h) =
                      Some (Inr ((valueOfByte 1)\<lparr>ValueStruct.Version := 3\<rparr>, h'))))"
  by (simp add: run_defs hint_defs listK3_def)

lemma linkLevel_height:
  assumes r: "linkLevel s key x i h v = Some y"
  shows "case y of Inl e \<Rightarrow> True
         | Inr (s', h', v') \<Rightarrow> height s' = height s \<and> head s' = head s"
  apply (rule linkLevel.raw_induct[where xa="(((((s, key), x), i), h), v)" and y=y
        and P="\<lambda>s key x i h v y. case y of Inl e \<Rightarrow> True
                 | Inr (s', h', v') \<Rightarrow> height s' = height s \<and> head s' = head s",
        unfolded prod.case])
  subgoal premises prems for f s key x i h v y
  proof (cases "inBounds i")
    case False
    with prems(2) show ?thesis by auto
  next
    case ib: True
    show ?thesis
    proof (cases "withArena s (\<lambda>a. storeAndCas a x i h)")
      case (Inl e)
      with prems(2) ib show ?thesis by auto
    next
      case (Inr r)
      obtain swapped a' where r: "r = (swapped, a')" by (cases r)
      show ?thesis
      proof (cases swapped)
        case True
        with prems(2) ib Inr r show ?thesis by auto
      next
        case False
        show ?thesis
        proof (cases "findSpliceForLevel (s\<lparr>arena := Some a'\<rparr>) key (hprev h i) i")
          case None
          with prems(2) ib Inr r False show ?thesis by simp
        next
          case (Some z)
          show ?thesis
          proof (cases z)
            case (Inl e)
            with prems(2) ib Inr r False Some show ?thesis by auto
          next
            case zr: (Inr t)
            obtain p n m where t: "t = (p, n, m)" by (cases t)
            from prems(2) ib Inr r False Some zr t
            have "f (s\<lparr>arena := Some a'\<rparr>) key x i
                     (h\<lparr>hprev := (hprev h)(i := p), hnext := (hnext h)(i := n)\<rparr>)
                     (if i > 0 then False else v) = Some y" by simp
            from prems(1)[OF this] show ?thesis by (auto split: sum.splits)
          qed
        qed
      qed
    qed
  qed
  subgoal by (rule r)
  done

lemma linkLoop_height:
  "linkLoop s key x ht i h v = Some (Inr (s', h', v'))
     \<Longrightarrow> height s' = height s \<and> head s' = head s"
proof (induction s key x ht i h v rule: linkLoop.induct)
  case (1 s key x ht i h v)
  show ?case
  proof (cases "i < ht")
    case False
    with "1.prems" show ?thesis by (subst (asm) linkLoop.simps) simp
  next
    case True
    from "1.prems" True have e: "(case linkLevel s key x i h v of
           None \<Rightarrow> None
         | Some (Inl e) \<Rightarrow> Some (Inl e)
         | Some (Inr (s1, h1, v1)) \<Rightarrow> linkLoop s1 key x ht (i + 1) h1 v1) = Some (Inr (s', h', v'))"
      by (subst (asm) linkLoop.simps) simp
    then obtain s1 h1 v1 where l: "linkLevel s key x i h v = Some (Inr (s1, h1, v1))"
      and n: "linkLoop s1 key x ht (i + 1) h1 v1 = Some (Inr (s', h', v'))"
      by (auto split: option.splits sum.splits)
    from linkLevel_height[OF l] have "height s1 = height s \<and> head s1 = head s" by simp
    moreover from "1.IH"[OF True l refl refl refl n] have "height s' = height s1 \<and> head s' = head s1" .
    ultimately show ?thesis by simp
  qed
qed

lemma spliceLoop_height:
  "spliceLoop s key v h n = Some (Inr (InPlace s2 h2)) \<Longrightarrow> height s2 = height s \<and> head s2 = head s"
proof (induction n arbitrary: h)
  case 0 then show ?case by simp
next
  case (Suc n)
  then show ?case
    by (auto simp: Let_def split: if_splits option.splits sum.splits prod.splits)
qed

lemma raiseHeight_max:
  "raiseHeight s (getHeight s) ht = (s\<lparr>height := max (height s) ht\<rparr>, max (height s) ht)"
  by (simp add: getHeight_def raiseHeight_own)

lemma PutWithHint_height:
  assumes "PutWithHint s key v hopt rnd = Some (Inr (s', h'))"
  shows "height s' = max (height s) (randomHeight rnd) \<and> head s' = head s"
proof -
  let ?s1 = "s\<lparr>height := max (height s) (randomHeight rnd)\<rparr>"
  from assms obtain rh h1 where
    c: "(case (if rh > 0 then spliceLoop ?s1 key v h1 rh else Some (Inr (NoMatch h1))) of
             None \<Rightarrow> None
           | Some (Inl e) \<Rightarrow> Some (Inl e)
           | Some (Inr (InPlace s2 h2)) \<Rightarrow> Some (Inr (s2, h2))
           | Some (Inr (NoMatch h2)) \<Rightarrow>
               (case withArena ?s1 (\<lambda>a. newNode a key v (randomHeight rnd)) of
                  Inl e \<Rightarrow> Some (Inl e)
                | Inr (x, a') \<Rightarrow>
                    (case linkLoop (?s1\<lparr>arena := Some a'\<rparr>) key x (randomHeight rnd) 0 h2 (hopt \<noteq> None) of
                       None \<Rightarrow> None
                     | Some (Inl e) \<Rightarrow> Some (Inl e)
                     | Some (Inr (s3, h3, stillValid)) \<Rightarrow>
                         if stillValid then
                           (case refreshHint s3 x (randomHeight rnd) 0 h3 of
                              Inl e \<Rightarrow> Some (Inl e)
                            | Inr h4 \<Rightarrow> Some (Inr (s3, h4)))
                         else Some (Inr (s3, h3\<lparr>hheight := 0\<rparr>))))) = Some (Inr (s', h'))"
    unfolding PutWithHint_def raiseHeight_max Let_def prod.case
    by (auto split: sum.splits prod.splits)
  show ?thesis
  proof (cases "if rh > 0 then spliceLoop ?s1 key v h1 rh else Some (Inr (NoMatch h1))")
    case None
    with c show ?thesis by simp
  next
    case (Some z)
    show ?thesis
    proof (cases z)
      case (Inl e)
      with c Some show ?thesis by simp
    next
      case (Inr sr)
      show ?thesis
      proof (cases sr)
        case (InPlace s2 h2)
        with c Some Inr have e: "s2 = s'" by simp
        from Some Inr InPlace have "spliceLoop ?s1 key v h1 rh = Some (Inr (InPlace s2 h2))"
          by (simp split: if_splits)
        from spliceLoop_height[OF this] e show ?thesis by simp
      next
        case (NoMatch h2)
        with c Some Inr obtain x a' s3 h3 sv where
          l: "linkLoop (?s1\<lparr>arena := Some a'\<rparr>) key x (randomHeight rnd) 0 h2 (hopt \<noteq> None)
                = Some (Inr (s3, h3, sv))" and e: "s3 = s'"
          by (auto split: sum.splits prod.splits option.splits if_splits)
        from linkLoop_height[OF l] e show ?thesis by simp
      qed
    qed
  qed
qed

lemma reaches_height:
  assumes "reaches s s'" "1 \<le> height s" "height s \<le> maxHeight"
  shows "height s \<le> height s' \<and> height s' \<le> maxHeight"
  using assms
proof (induction rule: reaches.induct)
  case (reaches_refl s)
  then show ?case by simp
next
  case (reaches_put s s1 k v hopt rnd s2 h)
  from PutWithHint_height[OF reaches_put(2)]
  have "height s2 = max (height s1) (randomHeight rnd)" by simp
  with reaches_put(3)[OF reaches_put(4,5)] randomHeight_bounds[of rnd] show ?case by auto
qed

lemma Put_reaches:
  assumes "Put s k v rnd = Some (Inr s')" and "reaches s0 s"
  shows "reaches s0 s'"
proof -
  from assms(1) obtain h where "PutWithHint s k v None rnd = Some (Inr (s', h))"
    by (auto simp: Put_def split: option.splits sum.splits)
  with assms(2) show ?thesis by (rule reaches_put)
qed

lemma reaches_listK37: "reaches emptyList listK37"
  by (rule Put_reaches[OF listK37_built Put_reaches[OF listK3_built reaches_refl]])

text \<open>
  Claim C6. \<open>randomHeight\<close> returns a height between 1 and \<open>maxHeight\<close>, which is 20.
  The CAS loop of \<open>PutWithHint\<close> leaves the height as it is or replaces it by the
  strictly larger height drawn. A new skiplist has height 1, and on every list reached
  from a list by calls of \<open>PutWithHint\<close>, with any hint, the height is not less than
  before and stays between 1 and \<open>maxHeight\<close>.
\<close>

theorem height_monotone_bounded:
  "1 \<le> randomHeight rnd \<and> randomHeight rnd \<le> maxHeight \<and> maxHeight = 20
   \<and> (\<exists>s1 lh. raiseHeight s (getHeight s) ht = (s1, lh) \<and> lh = height s1
          \<and> height s \<le> height s1
          \<and> (height s1 \<noteq> height s \<longrightarrow> height s < height s1 \<and> height s1 = ht))
   \<and> (newSkiplist sz = Inr s0 \<longrightarrow> height s0 = 1)
   \<and> (reaches s s' \<and> 1 \<le> height s \<and> height s \<le> maxHeight \<longrightarrow>
         height s \<le> height s' \<and> 1 \<le> height s' \<and> height s' \<le> maxHeight)"
proof (intro conjI impI)
  show "1 \<le> randomHeight rnd" "randomHeight rnd \<le> maxHeight"
    using randomHeight_bounds[of rnd] by auto
  show "maxHeight = 20" by (simp add: maxHeight_def)
  show "\<exists>s1 lh. raiseHeight s (getHeight s) ht = (s1, lh) \<and> lh = height s1
          \<and> height s \<le> height s1
          \<and> (height s1 \<noteq> height s \<longrightarrow> height s < height s1 \<and> height s1 = ht)"
    unfolding raiseHeight_max by (auto simp: max_def)
next
  assume "newSkiplist sz = Inr s0"
  from newSkiplist_inv[OF this] show "height s0 = 1" by simp
next
  assume r: "reaches s s' \<and> 1 \<le> height s \<and> height s \<le> maxHeight"
  then have h: "height s \<le> height s' \<and> height s' \<le> maxHeight"
    using reaches_height[of s s'] by simp
  then show "height s \<le> height s'" by simp
  from h show "height s' \<le> maxHeight" by simp
  from h r show "1 \<le> height s'" by simp
qed

theorem height_monotone_bounded_witness:
  "1 \<le> randomHeight highTower \<and> randomHeight highTower \<le> maxHeight
   \<and> height emptyList = 1 \<and> height listK37 = 3
   \<and> height emptyList \<le> height listK37 \<and> 1 \<le> height listK37 \<and> height listK37 \<le> maxHeight"
proof -
  have e: "1 \<le> height emptyList \<and> height emptyList \<le> maxHeight"
    by (simp add: emptyList_def maxHeight_def)
  have k: "height listK37 = 3" by (simp add: listK37_def)
  from height_monotone_bounded[where rnd=highTower and s=emptyList and s'=listK37
      and sz=4096 and ?s0.0=emptyList] emptyList_built reaches_listK37 e k
  show ?thesis by simp
qed

lemma upsert_mem: "(k, v) \<in> set (upsert k v es)"
  by (induction es) auto

lemma entries_mem:
  "(k, v) \<in> set (entries a xs) \<Longrightarrow> \<exists>p\<in>set xs. kof a p = k \<and> vof a p = v"
  by (auto simp: entries_def)

lemma sorted_filter_key:
  "sortedKeys es \<Longrightarrow> (k, v) \<in> set es \<Longrightarrow> filter (\<lambda>e. fst e = k) es = [(k, v)]"
proof (induction es)
  case Nil then show ?case by simp
next
  case (Cons e es)
  from Cons.prems(1) have s: "sortedKeys es" and lt: "\<forall>x\<in>set es. keyLess (fst e) (fst x)"
    by (auto simp: sortedKeys_def)
  show ?case
  proof (cases "fst e = k")
    case True
    have no: "\<forall>x\<in>set es. fst x \<noteq> k"
      using lt True keyLess_irrefl by auto
    with Cons.prems(2) have "e = (k, v)" by auto
    moreover from no have "filter (\<lambda>e. fst e = k) es = []" by (simp add: filter_empty_conv)
    ultimately show ?thesis by simp
  next
    case False
    with Cons.prems(2) have "(k, v) \<in> set es" by auto
    from Cons.IH[OF s this] False show ?thesis by simp
  qed
qed

lemma Get_present:
  assumes inv: "skl_inv s Ls" and a: "arena s = Some a"
      and q: "q \<in> set (Ls 0)" and k: "kof a q = key"
  shows "Get s key = Some (Inr ((vof a q)\<lparr>ValueStruct.Version := Key.Version key\<rparr>))"
proof -
  have lm: "0 < maxHeight" by (simp add: maxHeight_def)
  have asc: "ascending a (Ls 0)"
    using inv_level[OF inv a lm] by (simp add: level_ok_def)
  from near_eq[OF asc q k, of False]
  have "find (\<lambda>p. Compare (kof a p) key \<ge> 0) (Ls 0) = Some q"
    by (auto simp: nearest_def split: option.splits)
  with Get_correct[OF inv a, of key] k show ?thesis by (simp add: SameUserKey_def)
qed

lemma Put_nil:
  assumes inv: "skl_inv s Ls" and a: "arena s = Some a"
  shows "Put s key v rnd = Some (Inl OutOfArena)
     \<or> (\<exists>s' a' Ls'. Put s key v rnd = Some (Inr s')
          \<and> arena s' = Some a' \<and> skl_inv s' Ls'
          \<and> entries a' (Ls' 0) = upsert key v (entries a (Ls 0))
          \<and> ((\<exists>p\<in>set (Ls 0). kof a p = key) \<longrightarrow>
                Ls' = Ls \<and> (\<forall>p. nodes a' p = None \<longleftrightarrow> nodes a p = None)
                \<and> (\<forall>p l. getNextOffset a' p l = getNextOffset a p l)))"
  using PutWithHint_nil[OF inv a, of key v rnd] unfolding Put_def
  by (elim disjE exE conjE) (simp, rule disjI2, simp, blast)

lemma listK3_again: "Put listK3 (keyK 3) (valueOfByte 2) lowTower \<noteq> Some (Inl OutOfArena)"
  by (simp add: run_defs listK3_def)

text \<open>
  Claim C4. On a live skiplist, two puts of the same key \<open>k\<close>, with the values \<open>v1\<close> and
  then \<open>v2\<close>, return unless the arena is full; after them \<open>Get\<close> of \<open>k\<close> returns \<open>v2\<close>
  (with the Version of \<open>k\<close>), the forward iteration visits exactly one entry for \<open>k\<close>,
  the entry \<open>(k, v2)\<close>, and the second put adds no node and changes no link: the levels,
  the allocated nodes and every tower slot are those after the first put.
\<close>

theorem put_put_overwrites:
  assumes inv: "skl_inv s Ls" and a: "arena s = Some a"
  shows "Put s k v1 rnd1 = Some (Inl OutOfArena)
     \<or> (\<exists>s1 a1 Ls1. Put s k v1 rnd1 = Some (Inr s1) \<and> arena s1 = Some a1 \<and> skl_inv s1 Ls1
          \<and> (Put s1 k v2 rnd2 = Some (Inl OutOfArena)
             \<or> (\<exists>s2 a2 es. Put s1 k v2 rnd2 = Some (Inr s2) \<and> arena s2 = Some a2
                  \<and> skl_inv s2 Ls1
                  \<and> Get s2 k = Some (Inr (v2\<lparr>ValueStruct.Version := Key.Version k\<rparr>))
                  \<and> forward s2 = Some (Inr (es, \<lparr>it_list = s2, it_n = 0\<rparr>))
                  \<and> filter (\<lambda>e. fst e = k) es = [(k, v2)]
                  \<and> (\<forall>p. nodes a2 p = None \<longleftrightarrow> nodes a1 p = None)
                  \<and> (\<forall>p l. getNextOffset a2 p l = getNextOffset a1 p l))))"
proof (cases "Put s k v1 rnd1 = Some (Inl OutOfArena)")
  case True
  then show ?thesis by simp
next
  case False
  with Put_nil[OF inv a, of k v1 rnd1] obtain s1 a1 Ls1 where
    p1: "Put s k v1 rnd1 = Some (Inr s1)" and a1: "arena s1 = Some a1"
    and inv1: "skl_inv s1 Ls1"
    and e1: "entries a1 (Ls1 0) = upsert k v1 (entries a (Ls 0))"
    by blast
  have "(k, v1) \<in> set (entries a1 (Ls1 0))" unfolding e1 by (rule upsert_mem)
  from entries_mem[OF this] have pres: "\<exists>p\<in>set (Ls1 0). kof a1 p = k" by blast
  have second: "Put s1 k v2 rnd2 = Some (Inl OutOfArena)
             \<or> (\<exists>s2 a2 es. Put s1 k v2 rnd2 = Some (Inr s2) \<and> arena s2 = Some a2
                  \<and> skl_inv s2 Ls1
                  \<and> Get s2 k = Some (Inr (v2\<lparr>ValueStruct.Version := Key.Version k\<rparr>))
                  \<and> forward s2 = Some (Inr (es, \<lparr>it_list = s2, it_n = 0\<rparr>))
                  \<and> filter (\<lambda>e. fst e = k) es = [(k, v2)]
                  \<and> (\<forall>p. nodes a2 p = None \<longleftrightarrow> nodes a1 p = None)
                  \<and> (\<forall>p l. getNextOffset a2 p l = getNextOffset a1 p l))"
  proof (cases "Put s1 k v2 rnd2 = Some (Inl OutOfArena)")
    case True
    then show ?thesis by simp
  next
    case False
    with Put_nil[OF inv1 a1, of k v2 rnd2] pres obtain s2 a2 where
      p2: "Put s1 k v2 rnd2 = Some (Inr s2)" and a2: "arena s2 = Some a2"
      and inv2: "skl_inv s2 Ls1"
      and e2: "entries a2 (Ls1 0) = upsert k v2 (entries a1 (Ls1 0))"
      and same: "\<forall>p. nodes a2 p = None \<longleftrightarrow> nodes a1 p = None"
        "\<forall>p l. getNextOffset a2 p l = getNextOffset a1 p l"
      by blast
    have m: "(k, v2) \<in> set (entries a2 (Ls1 0))" unfolding e2 by (rule upsert_mem)
    from entries_mem[OF m] obtain q where q: "q \<in> set (Ls1 0)" "kof a2 q = k" "vof a2 q = v2"
      by blast
    from Get_present[OF inv2 a2 q(1,2)] q(3)
    have g: "Get s2 k = Some (Inr (v2\<lparr>ValueStruct.Version := Key.Version k\<rparr>))" by simp
    have lm: "0 < maxHeight" by (simp add: maxHeight_def)
    have "ascending a2 (Ls1 0)"
      using inv_level[OF inv2 a2 lm] by (simp add: level_ok_def)
    then have "sortedKeys (entries a2 (Ls1 0))" by (simp add: sortedKeys_entries)
    from sorted_filter_key[OF this m]
    have f: "filter (\<lambda>e. fst e = k) (entries a2 (Ls1 0)) = [(k, v2)]" .
    from p2 a2 inv2 g forward_correct[OF inv2 a2] f same show ?thesis by blast
  qed
  from p1 a1 inv1 second show ?thesis by blast
qed

theorem put_put_overwrites_witness:
  "Put emptyList (keyK 3) (valueOfByte 1) lowTower = Some (Inr listK3)
   \<and> (\<exists>s2 es. Put listK3 (keyK 3) (valueOfByte 2) lowTower = Some (Inr s2)
         \<and> Get s2 (keyK 3) = Some (Inr ((valueOfByte 2)\<lparr>ValueStruct.Version := 3\<rparr>))
         \<and> forward s2 = Some (Inr (es, \<lparr>it_list = s2, it_n = 0\<rparr>))
         \<and> filter (\<lambda>e. fst e = keyK 3) es = [(keyK 3, valueOfByte 2)])"
proof -
  have v: "Key.Version (keyK 3) = 3" by (simp add: keyK_def)
  from put_put_overwrites[OF emptyList_inv arena_emptyList,
      of "keyK 3" "valueOfByte 1" lowTower "valueOfByte 2" lowTower]
    listK3_built listK3_again
  show ?thesis by (auto simp: v)
qed

end
